theory Spec2Isabelle
  imports
    Complex_Main
    "HOL-Library.While_Combinator"
    "HOL-Library.Product_Lexorder"
    "HOL-Library.Multiset"
begin

section \<open>The injection-moulding scheduler: data model\<close>

text \<open>
  A shallow embedding of \<^verbatim>\<open>backend/app/services/ga_scheduler.py\<close> and of the
  dataclasses of \<^verbatim>\<open>backend/app/models/models.py\<close>.

  Python \<^verbatim>\<open>float\<close> values (hours, cycle times, scores) are modelled as exact
  rationals: the rounding of binary floating point is outside the model. Python
  \<^verbatim>\<open>int\<close> is \<open>int\<close>, \<^verbatim>\<open>str\<close> is \<open>string\<close>. A \<^verbatim>\<open>dict\<close> that is
  built by a comprehension over a list and read only at keys of that list is a total
  function; a \<^verbatim>\<open>dict\<close> read with \<^verbatim>\<open>.get\<close> or at a key of another origin is a map,
  and a missing key raises \<open>KeyError\<close>.
\<close>

record Machine =
  m_id :: string
  m_name :: string
  m_group :: string
  m_tonnage :: int
  hours_per_day :: rat
  efficiency :: rat

record Mold =
  mo_id :: string
  mo_name :: string
  mo_group :: string
  mo_tonnage :: int

record ProductComponent =
  c_id :: string
  c_name :: string
  quantity :: int
  cycle_time_sec :: rat
  c_mold_id :: string
  c_color :: string
  due_day :: int
  lead_time_days :: int
  prerequisites :: "string list"
  status :: string

text \<open>
  A task is a dictionary in the source; the keys that depend on \<^verbatim>\<open>task_type\<close> are
  the arguments of the constructor:
  \<open>PRODUCE mold_id component_id component_name color produced_qty\<close>,
  \<open>CHANGE_MOLD from_mold_id to_mold_id\<close>, \<open>CHANGE_COLOR from_color to_color\<close>.
\<close>

datatype task_type =
    PRODUCE string string string string int
  | CHANGE_MOLD "string option" string
  | CHANGE_COLOR "string option" string
  | WAIT

record Task =
  day :: int
  machine_id :: string
  machine_name :: string
  sequence_in_day :: int
  task_type :: task_type
  used_hours :: rat
  start_hour :: rat
  end_hour :: rat
  utilization :: rat

text \<open>The exceptions of the source: \<^verbatim>\<open>ValueError\<close> with its message, the
  \<^verbatim>\<open>KeyError\<close> of a dictionary read at a missing key, the \<^verbatim>\<open>IndexError\<close> of
  a list read out of range and the \<^verbatim>\<open>TypeError\<close> of iterating \<^verbatim>\<open>None\<close>.\<close>

datatype error = ValueError string | KeyError string | IndexError | TypeError | OverflowError

definition EPS :: rat where
  "EPS = 1 / 1000000000"

definition UNRANKED :: int where
  "UNRANKED = 10 ^ 9"

section \<open>Intervals\<close>

definition overlaps :: "rat \<Rightarrow> rat \<Rightarrow> rat \<Rightarrow> rat \<Rightarrow> bool" where
  "overlaps a_start a_end b_start b_end = (\<not> (a_end \<le> b_start \<or> b_end \<le> a_start))"

definition interval_is_free :: "(rat \<times> rat) list \<Rightarrow> rat \<Rightarrow> rat \<Rightarrow> bool" where
  "interval_is_free intervals start_h end_h =
     list_all (\<lambda>(s, e). \<not> overlaps s e start_h end_h) intervals"

definition reserve_interval :: "(rat \<times> rat) list \<Rightarrow> rat \<Rightarrow> rat \<Rightarrow> (rat \<times> rat) list" where
  "reserve_interval intervals start_h end_h = intervals @ [(start_h, end_h)]"

text \<open>\<^verbatim>\<open>max(xs)\<close> and \<^verbatim>\<open>min(xs)\<close>: every call of the source is guarded by a test that
  the list is not empty, so the value at the empty list is never read.\<close>

fun py_max :: "rat list \<Rightarrow> rat" where
  "py_max [] = 0"
| "py_max [x] = x"
| "py_max (x # y # ys) = max x (py_max (y # ys))"

fun py_min :: "rat list \<Rightarrow> rat" where
  "py_min [] = 0"
| "py_min [x] = x"
| "py_min (x # y # ys) = min x (py_min (y # ys))"

section \<open>Topological order (Kahn)\<close>

text \<open>The keys of a dictionary built from a list of keys, in insertion order: the
  first occurrence of each key.\<close>

fun dict_keys :: "string list \<Rightarrow> string list" where
  "dict_keys [] = []"
| "dict_keys (k # ks) = k # filter (\<lambda>x. x \<noteq> k) (dict_keys ks)"

text \<open>\<^verbatim>\<open>{c.id: c for c in components}\<close>: the last component with an id wins.\<close>

definition by_id :: "ProductComponent list \<Rightarrow> string \<rightharpoonup> ProductComponent" where
  "by_id components = map_of (rev (map (\<lambda>c. (c_id c, c)) components))"

definition quoted :: "string \<Rightarrow> string" where
  "quoted s = CHR 0x27 # s @ [CHR 0x27]"

text \<open>The two nested \<^verbatim>\<open>for\<close> loops visit the pairs (prerequisite, component id) in
  this order.\<close>

definition prereq_edges :: "ProductComponent list \<Rightarrow> (string \<times> string) list" where
  "prereq_edges components =
     concat (map (\<lambda>c. map (\<lambda>pr. (pr, c_id c)) (prerequisites c)) components)"

fun add_edges ::
  "(string \<rightharpoonup> ProductComponent) \<Rightarrow> (string \<times> string) list \<Rightarrow>
   (string \<Rightarrow> string list) \<times> (string \<Rightarrow> int) \<Rightarrow>
   error + (string \<Rightarrow> string list) \<times> (string \<Rightarrow> int)" where
  "add_edges byid [] gi = Inr gi"
| "add_edges byid ((pr, cid) # es) (graph, indeg) =
     (if byid pr = None
      then Inl (ValueError (''Prerequisite '' @ quoted pr @ '' not found for component ''
                            @ quoted cid @ ''.''))
      else add_edges byid es (graph(pr := graph pr @ [cid]), indeg(cid := indeg cid + 1)))"

text \<open>The inner loop of the queue loop: one successor of the popped node.\<close>

definition relax :: "string \<Rightarrow> (string \<Rightarrow> int) \<times> string list \<Rightarrow> (string \<Rightarrow> int) \<times> string list" where
  "relax nxt dq =
     (let indeg = (fst dq)(nxt := fst dq nxt - 1)
      in (indeg, if indeg nxt = 0 then snd dq @ [nxt] else snd dq))"

type_synonym kahn_state = "(string \<Rightarrow> int) \<times> string list \<times> ProductComponent list"

definition kahn_cond :: "error + kahn_state \<Rightarrow> bool" where
  "kahn_cond s = (case s of Inl e \<Rightarrow> False | Inr (indeg, queue, out) \<Rightarrow> queue \<noteq> [])"

definition kahn_step ::
  "(string \<Rightarrow> string list) \<Rightarrow> (string \<rightharpoonup> ProductComponent) \<Rightarrow> error + kahn_state \<Rightarrow> error + kahn_state" where
  "kahn_step graph byid s =
     (case s of
        Inl e \<Rightarrow> Inl e
      | Inr (indeg, queue, out) \<Rightarrow>
          (case queue of
             [] \<Rightarrow> Inr (indeg, queue, out)
           | cid # queue' \<Rightarrow>
               (case byid cid of
                  None \<Rightarrow> Inl (KeyError cid)
                | Some c \<Rightarrow>
                    (let dq = fold relax (graph cid) (indeg, queue')
                     in Inr (fst dq, snd dq, out @ [c])))))"

definition topological_order :: "ProductComponent list \<Rightarrow> (error + ProductComponent list) option" where
  "topological_order components =
     (let byid = by_id components;
          keys = dict_keys (map c_id components)
      in case add_edges byid (prereq_edges components) (\<lambda>_. [], \<lambda>_. 0) of
           Inl e \<Rightarrow> Some (Inl e)
         | Inr (graph, indeg) \<Rightarrow>
             (case while_option kahn_cond (kahn_step graph byid)
                     (Inr (indeg, filter (\<lambda>cid. indeg cid = 0) keys, [])) of
                None \<Rightarrow> None
              | Some (Inl e) \<Rightarrow> Some (Inl e)
              | Some (Inr (indeg', queue, out)) \<Rightarrow>
                  if length out \<noteq> length components
                  then Some (Inl (ValueError ''Circular dependency detected in prerequisites.''))
                  else Some (Inr out)))"

section \<open>Helpers of the decoder\<close>

definition feasible_on_machine ::
  "ProductComponent \<Rightarrow> Machine \<Rightarrow> (string \<rightharpoonup> Mold) \<Rightarrow> bool" where
  "feasible_on_machine cmp machine moldsbyid =
     (case moldsbyid (c_mold_id cmp) of
        None \<Rightarrow> False
      | Some mold \<Rightarrow>
          if mo_group mold \<noteq> m_group machine then False
          else if mo_tonnage mold > m_tonnage machine then False
          else if cycle_time_sec cmp \<le> 0 then False
          else True)"

definition piece_hours :: "rat \<Rightarrow> rat" where
  "piece_hours cts = cts / 3600"

text \<open>The loop of \<^verbatim>\<open>_next_ready_time_due_to_prereqs\<close>: \<open>None\<close> is its early
  \<^verbatim>\<open>return None\<close>, otherwise the list \<^verbatim>\<open>needed\<close>.\<close>

fun prereq_needed ::
  "(string \<rightharpoonup> int \<times> rat) \<Rightarrow> int \<Rightarrow> rat \<Rightarrow> string list \<Rightarrow> rat list \<Rightarrow> rat list option" where
  "prereq_needed ct d after_hour [] needed = Some needed"
| "prereq_needed ct d after_hour (pr # prs) needed =
     (case ct pr of
        None \<Rightarrow> None
      | Some (pr_day, pr_hour) \<Rightarrow>
          if pr_day > d then None
          else if pr_day = d \<and> pr_hour > after_hour + EPS
          then prereq_needed ct d after_hour prs (needed @ [pr_hour])
          else prereq_needed ct d after_hour prs needed)"

definition next_ready_time_due_to_prereqs ::
  "ProductComponent \<Rightarrow> (string \<rightharpoonup> int \<times> rat) \<Rightarrow> int \<Rightarrow> rat \<Rightarrow> rat option" where
  "next_ready_time_due_to_prereqs cmp ct d after_hour =
     (case prereq_needed ct d after_hour (prerequisites cmp) [] of
        None \<Rightarrow> None
      | Some needed \<Rightarrow> if needed = [] then Some after_hour else Some (py_max needed))"

text \<open>The \<^verbatim>\<open>while\<close> loop of \<^verbatim>\<open>_next_mold_free_time_for_window\<close>, with its
  \<^verbatim>\<open>safety\<close> counter.\<close>

function window_loop ::
  "(rat \<times> rat) list \<Rightarrow> rat \<Rightarrow> rat \<Rightarrow> rat \<Rightarrow> nat \<Rightarrow> rat option" where
  "window_loop intervals window_hours cap tt safety =
     (if tt + window_hours \<le> cap + EPS then
        (if safety + 1 > 10000 then None
         else
           (let ovl = filter (\<lambda>(s, e). overlaps s e tt (tt + window_hours)) intervals
            in if ovl = [] then Some tt
               else window_loop intervals window_hours cap (py_max (map snd ovl)) (safety + 1)))
      else None)"
  by pat_completeness auto
termination
  by (relation "measure (\<lambda>(intervals, window_hours, cap, tt, safety). 10001 - safety)") auto

declare window_loop.simps [simp del]

definition next_mold_free_time_for_window ::
  "(rat \<times> rat) list \<Rightarrow> rat \<Rightarrow> rat \<Rightarrow> rat \<Rightarrow> rat option" where
  "next_mold_free_time_for_window intervals after_hour window_hours cap =
     (if window_hours \<le> 0 then (if after_hour \<le> cap + EPS then Some after_hour else None)
      else if after_hour + window_hours \<le> cap + EPS
              \<and> interval_is_free intervals after_hour (after_hour + window_hours)
      then Some after_hour
      else window_loop intervals window_hours cap after_hour 0)"

definition next_busy_start :: "(rat \<times> rat) list \<Rightarrow> rat \<Rightarrow> rat option" where
  "next_busy_start intervals after_hour =
     (let starts = filter (\<lambda>s. s \<ge> after_hour + EPS) (map fst intervals)
      in if starts \<noteq> [] then Some (py_min starts) else None)"

section \<open>The state of a decode\<close>

text \<open>
  The inputs of a decode that its loops only read: the machines, \<^verbatim>\<open>molds_by_id\<close>,
  the two changeover durations, \<^verbatim>\<open>comp_order\<close> and \<^verbatim>\<open>rank\<close>.
\<close>

record decode_env =
  machines :: "Machine list"
  molds_by_id :: "string \<rightharpoonup> Mold"
  mold_change_time_hours :: rat
  color_change_time_hours :: rat
  comp_order :: "ProductComponent list"
  rank :: "string \<rightharpoonup> int"

text \<open>
  The local variables of \<^verbatim>\<open>_decode_v2\<close> that its loops update. \<open>t_m\<close>, \<open>seq_m\<close>
  and \<open>done_m\<close> are the per-day dictionaries \<^verbatim>\<open>t\<close>, \<^verbatim>\<open>seq\<close> and \<^verbatim>\<open>done\<close>;
  \<open>machine_state\<close> holds (mold_id, color, last_component_id) of each machine;
  \<open>raised\<close> is the exception that left the loop, if any. \<^verbatim>\<open>mold_busy[day]\<close> is read
  only at the day of the running loop, \<^verbatim>\<open>mold_busy[day][mold]\<close> has a key for each
  mold of the input.
\<close>

record dstate =
  remaining :: "string \<Rightarrow> int"
  completion_time :: "string \<rightharpoonup> int \<times> rat"
  mold_busy :: "int \<Rightarrow> string \<rightharpoonup> (rat \<times> rat) list"
  machine_state :: "string \<Rightarrow> string option \<times> string option \<times> string option"
  component_owner :: "string \<rightharpoonup> string"
  tasks :: "Task list"
  t_m :: "string \<Rightarrow> rat"
  seq_m :: "string \<Rightarrow> int"
  done_m :: "string \<Rightarrow> bool"
  current_mold :: "string \<Rightarrow> string option"
  current_color :: "string \<Rightarrow> string option"
  last_component :: "string \<Rightarrow> string option"
  raised :: "error option"

text \<open>\<^verbatim>\<open>usable = {m.id: hours_per_day * efficiency for m in machines}\<close>.\<close>

definition usable :: "Machine list \<Rightarrow> string \<Rightarrow> rat" where
  "usable ms = fold (\<lambda>m u. u(m_id m := hours_per_day m * efficiency m)) ms (\<lambda>_. 0)"

definition mk_task ::
  "int \<Rightarrow> Machine \<Rightarrow> int \<Rightarrow> task_type \<Rightarrow> rat \<Rightarrow> rat \<Rightarrow> rat \<Rightarrow> rat \<Rightarrow> Task" where
  "mk_task d machine sq ty used start_h end_h cap =
     \<lparr>day = d, machine_id = m_id machine, machine_name = m_name machine,
      sequence_in_day = sq, task_type = ty, used_hours = used,
      start_hour = start_h, end_hour = end_h,
      utilization = (if cap > EPS then min 1 (used / cap) else 0)\<rparr>"

text \<open>\<^verbatim>\<open>done[mid] = True; t[mid] = cap\<close>.\<close>

definition mark_done :: "string \<Rightarrow> rat \<Rightarrow> dstate \<Rightarrow> dstate" where
  "mark_done mid cap st = st\<lparr>done_m := (done_m st)(mid := True), t_m := (t_m st)(mid := cap)\<rparr>"

text \<open>\<^verbatim>\<open>tasks.append(task); t[mid] = t_new; seq[mid] += 1\<close>.\<close>

definition emit :: "Task \<Rightarrow> string \<Rightarrow> rat \<Rightarrow> dstate \<Rightarrow> dstate" where
  "emit tk mid t_new st =
     st\<lparr>tasks := tasks st @ [tk], t_m := (t_m st)(mid := t_new),
        seq_m := (seq_m st)(mid := seq_m st mid + 1)\<rparr>"

text \<open>A \<^verbatim>\<open>WAIT\<close> task from \<open>now\<close> to \<open>t_next\<close> on the machine.\<close>

definition emit_wait :: "int \<Rightarrow> Machine \<Rightarrow> rat \<Rightarrow> rat \<Rightarrow> rat \<Rightarrow> dstate \<Rightarrow> dstate" where
  "emit_wait d machine cap now t_next st =
     emit (mk_task d machine (seq_m st (m_id machine)) WAIT (t_next - now) now t_next cap)
          (m_id machine) t_next st"

text \<open>\<^verbatim>\<open>_reserve_interval(mold_busy[day][mold], start, end)\<close>: the list is shared, the
  append is seen through \<^verbatim>\<open>mold_busy\<close>.\<close>

definition reserve :: "int \<Rightarrow> string \<Rightarrow> (rat \<times> rat) list \<Rightarrow> rat \<Rightarrow> rat \<Rightarrow> dstate \<Rightarrow> dstate" where
  "reserve d mold intervals start_h end_h st =
     st\<lparr>mold_busy := (mold_busy st)(d := (mold_busy st d)(mold \<mapsto> reserve_interval intervals start_h end_h))\<rparr>"

text \<open>The shared tail of the three waits for a free window of the mold: wait until
  \<open>nxt\<close> when it lies strictly inside the rest of the day, else the machine is done.\<close>

definition wait_for_window ::
  "int \<Rightarrow> Machine \<Rightarrow> rat \<Rightarrow> rat \<Rightarrow> rat option \<Rightarrow> dstate \<Rightarrow> dstate" where
  "wait_for_window d machine cap now nxt st =
     (case nxt of
        None \<Rightarrow> mark_done (m_id machine) cap st
      | Some n \<Rightarrow>
          if n > now + EPS \<and> n < cap - EPS then emit_wait d machine cap now n st
          else mark_done (m_id machine) cap st)"

section \<open>One slot of the decoder\<close>

text \<open>A candidate is the tuple the source appends: (sticky, color_match, mold_match,
  latest_start, rank, component, need_color_change, need_mold_change).\<close>

type_synonym candidate = "int \<times> int \<times> int \<times> int \<times> int \<times> ProductComponent \<times> bool \<times> bool"

definition cand_sticky :: "candidate \<Rightarrow> int" where
  "cand_sticky x = fst x"

definition cand_color_match :: "candidate \<Rightarrow> int" where
  "cand_color_match x = fst (snd x)"

definition cand_key :: "candidate \<Rightarrow> int \<times> int \<times> int \<times> int \<times> int" where
  "cand_key x = (case x of (sticky, color_match, mold_match, latest_start, rk, c, ncc, nmc) \<Rightarrow>
                   (- sticky, - color_match, - mold_match, latest_start, rk))"

definition rank_get :: "(string \<rightharpoonup> int) \<Rightarrow> string \<Rightarrow> int" where
  "rank_get rk cid = (case rk cid of None \<Rightarrow> UNRANKED | Some i \<Rightarrow> i)"

text \<open>The body of \<^verbatim>\<open>for comp in comp_order\<close>: the accumulator is
  (\<^verbatim>\<open>candidates\<close>, \<^verbatim>\<open>wait_candidates_next_times\<close>); returning it unchanged is
  \<^verbatim>\<open>continue\<close>.\<close>

definition scan_component ::
  "decode_env \<Rightarrow> dstate \<Rightarrow> int \<Rightarrow> Machine \<Rightarrow> rat \<Rightarrow> rat \<Rightarrow> ProductComponent \<Rightarrow>
   candidate list \<times> rat list \<Rightarrow> candidate list \<times> rat list" where
  "scan_component E st d machine now cap cmp acc =
     (let mid = m_id machine in
      if remaining st (c_id cmp) \<le> 0 then acc
      else if (case component_owner st (c_id cmp) of None \<Rightarrow> False | Some owner \<Rightarrow> owner \<noteq> mid) then acc
      else if \<not> feasible_on_machine cmp machine (molds_by_id E) then acc
      else
        (let need_mold_change = (current_mold st mid \<noteq> Some (c_mold_id cmp));
             need_color_change = (current_color st mid \<noteq> Some (c_color cmp));
             setup = (if need_color_change then max 0 (color_change_time_hours E) else 0)
                     + (if need_mold_change then max 0 (mold_change_time_hours E) else 0);
             start_after_setup = now + setup;
             per_piece_h = piece_hours (cycle_time_sec cmp)
         in if per_piece_h \<le> 0 then acc
            else
              (case next_ready_time_due_to_prereqs cmp (completion_time st) d start_after_setup of
                 None \<Rightarrow> acc
               | Some prereq_ready \<Rightarrow>
                   (let produce_start = max start_after_setup prereq_ready in
                    if cap - produce_start < per_piece_h - EPS then acc
                    else
                      (case mold_busy st d (c_mold_id cmp) of
                         None \<Rightarrow> acc
                       | Some intervals \<Rightarrow>
                           (let mold_hold_start =
                                  (if need_mold_change \<and> mold_change_time_hours E > 0
                                   then now + (if need_color_change
                                               then max 0 (color_change_time_hours E) else 0)
                                   else now);
                                mold_hold_end_min = produce_start + per_piece_h
                            in if \<not> interval_is_free intervals mold_hold_start mold_hold_end_min then
                                 (let required_window = mold_hold_end_min - mold_hold_start
                                  in case next_mold_free_time_for_window intervals mold_hold_start
                                            required_window cap of
                                       None \<Rightarrow> acc
                                     | Some nxt \<Rightarrow>
                                         if nxt > now + EPS \<and> nxt < cap - EPS
                                         then (fst acc, snd acc @ [nxt])
                                         else acc)
                               else
                                 (let sticky = (if last_component st mid = Some (c_id cmp) then 1 else 0);
                                      color_match = (if current_color st mid = Some (c_color cmp) then 1 else 0);
                                      mold_match = (if current_mold st mid = Some (c_mold_id cmp) then 1 else 0);
                                      latest_start = due_day cmp - lead_time_days cmp
                                  in (fst acc @ [(sticky, color_match, mold_match, latest_start,
                                                  rank_get (rank E) (c_id cmp), cmp,
                                                  need_color_change, need_mold_change)],
                                      snd acc))))))))"

text \<open>Stickiness first, then same colour, then the sort; the chosen candidate is the
  head of the result.\<close>

definition select_candidates :: "dstate \<Rightarrow> string \<Rightarrow> candidate list \<Rightarrow> candidate list" where
  "select_candidates st mid candidates =
     (let c1 = (if last_component st mid \<noteq> None \<and> list_ex (\<lambda>c. cand_sticky c = 1) candidates
                then filter (\<lambda>c. cand_sticky c = 1) candidates else candidates);
          c2 = (if current_color st mid \<noteq> None \<and> list_ex (\<lambda>c. cand_color_match c = 1) c1
                then filter (\<lambda>c. cand_color_match c = 1) c1 else c1)
      in sort_key cand_key c2)"

text \<open>The state changes of the stages. \<^verbatim>\<open>current_color[mid] = chosen.color\<close> and
  \<^verbatim>\<open>current_mold[mid] = chosen.mold_id\<close>:\<close>

definition set_color :: "string \<Rightarrow> string \<Rightarrow> dstate \<Rightarrow> dstate" where
  "set_color mid col st = st\<lparr>current_color := (current_color st)(mid := Some col)\<rparr>"

definition set_mold :: "string \<Rightarrow> string \<Rightarrow> dstate \<Rightarrow> dstate" where
  "set_mold mid mold st = st\<lparr>current_mold := (current_mold st)(mid := Some mold)\<rparr>"

text \<open>The \<^verbatim>\<open>CHANGE_COLOR\<close> task of duration \<open>ch\<close> from \<open>now\<close>.\<close>

definition emit_change_color ::
  "int \<Rightarrow> Machine \<Rightarrow> rat \<Rightarrow> rat \<Rightarrow> string \<Rightarrow> rat \<Rightarrow> dstate \<Rightarrow> dstate" where
  "emit_change_color d machine cap ch col now st =
     emit (mk_task d machine (seq_m st (m_id machine))
             (CHANGE_COLOR (current_color st (m_id machine)) col) ch now (now + ch) cap)
          (m_id machine) (now + ch) st"

text \<open>The reservation of the mold for the change, and the \<^verbatim>\<open>CHANGE_MOLD\<close> task of
  duration \<open>mh\<close> from \<open>now\<close>.\<close>

definition emit_change_mold ::
  "int \<Rightarrow> Machine \<Rightarrow> rat \<Rightarrow> rat \<Rightarrow> string \<Rightarrow> (rat \<times> rat) list \<Rightarrow> rat \<Rightarrow> dstate \<Rightarrow> dstate" where
  "emit_change_mold d machine cap mh mold intervals now st =
     (let st1 = reserve d mold intervals now (now + mh) st
      in emit (mk_task d machine (seq_m st1 (m_id machine))
                 (CHANGE_MOLD (current_mold st1 (m_id machine)) mold) mh now (now + mh) cap)
              (m_id machine) (now + mh) st1)"

text \<open>The production of \<open>qty\<close> pieces from \<open>start_prod\<close>: the reservation, the
  ownership, the \<^verbatim>\<open>PRODUCE\<close> task, the updates of the machine and of
  \<^verbatim>\<open>remaining\<close>, and the completion time when nothing remains.\<close>

definition commit_produce ::
  "int \<Rightarrow> Machine \<Rightarrow> rat \<Rightarrow> ProductComponent \<Rightarrow> (rat \<times> rat) list \<Rightarrow> int \<Rightarrow> rat \<Rightarrow> dstate \<Rightarrow> dstate" where
  "commit_produce d machine cap chosen intervals qty start_prod st =
     (let mid = m_id machine;
          used_h = of_int qty * piece_hours (cycle_time_sec chosen);
          end_prod = start_prod + used_h;
          st1 = reserve d (c_mold_id chosen) intervals start_prod end_prod st;
          st2 = (if component_owner st1 (c_id chosen) = None
                 then st1\<lparr>component_owner := (component_owner st1)(c_id chosen \<mapsto> mid)\<rparr>
                 else st1);
          tk = mk_task d machine (seq_m st2 mid)
                 (PRODUCE (c_mold_id chosen) (c_id chosen) (c_name chosen) (c_color chosen) qty)
                 used_h start_prod end_prod cap;
          st3 = st2\<lparr>tasks := tasks st2 @ [tk],
                   remaining := (remaining st2)(c_id chosen := remaining st2 (c_id chosen) - qty),
                   last_component := (last_component st2)(mid := Some (c_id chosen)),
                   current_mold := (current_mold st2)(mid := Some (c_mold_id chosen)),
                   current_color := (current_color st2)(mid := Some (c_color chosen)),
                   t_m := (t_m st2)(mid := end_prod),
                   seq_m := (seq_m st2)(mid := seq_m st2 mid + 1)\<rparr>
      in if remaining st3 (c_id chosen) \<le> 0
         then st3\<lparr>completion_time := (completion_time st3)(c_id chosen \<mapsto> (d, end_prod))\<rparr>
         else st3)"

text \<open>The four stages after the choice. \<open>Inl st\<close>: the iteration ended
  (\<^verbatim>\<open>continue\<close>) in state \<open>st\<close>; \<open>Inr (st, now)\<close>: the next stage runs with the
  local \<^verbatim>\<open>now\<close>.\<close>

definition change_color ::
  "decode_env \<Rightarrow> int \<Rightarrow> Machine \<Rightarrow> rat \<Rightarrow> ProductComponent \<Rightarrow> bool \<Rightarrow> rat \<Rightarrow> dstate \<Rightarrow>
   dstate + dstate \<times> rat" where
  "change_color E d machine cap chosen need_color_change now st =
     (let mid = m_id machine in
      if need_color_change then
        (let ch = max 0 (color_change_time_hours E) in
         if ch > 0 then
           (if now + ch > cap + EPS then Inl (mark_done mid cap st)
            else Inr (set_color mid (c_color chosen)
                        (emit_change_color d machine cap ch (c_color chosen) now st),
                      now + ch))
         else Inr (set_color mid (c_color chosen) st, now))
      else Inr (st, now))"

definition change_mold ::
  "decode_env \<Rightarrow> int \<Rightarrow> Machine \<Rightarrow> rat \<Rightarrow> ProductComponent \<Rightarrow> bool \<Rightarrow> rat \<Rightarrow> dstate \<Rightarrow>
   dstate + dstate \<times> rat" where
  "change_mold E d machine cap chosen need_mold_change now st =
     (let mid = m_id machine in
      if need_mold_change then
        (let mh = max 0 (mold_change_time_hours E) in
         if mh > 0 then
           (if now + mh > cap + EPS then Inl (mark_done mid cap st)
            else
              (case mold_busy st d (c_mold_id chosen) of
                 None \<Rightarrow> Inl (st\<lparr>raised := Some (KeyError (c_mold_id chosen))\<rparr>)
               | Some intervals \<Rightarrow>
                   if \<not> interval_is_free intervals now (now + mh) then
                     Inl (wait_for_window d machine cap now
                            (next_mold_free_time_for_window intervals now mh cap) st)
                   else
                     Inr (set_mold mid (c_mold_id chosen)
                            (emit_change_mold d machine cap mh (c_mold_id chosen) intervals now st),
                          now + mh)))
         else Inr (set_mold mid (c_mold_id chosen) st, now))
      else Inr (st, now))"

definition prereq_wait ::
  "decode_env \<Rightarrow> int \<Rightarrow> Machine \<Rightarrow> rat \<Rightarrow> ProductComponent \<Rightarrow> rat \<Rightarrow> dstate \<Rightarrow>
   dstate + dstate \<times> rat" where
  "prereq_wait E d machine cap chosen now st =
     (let mid = m_id machine in
      case next_ready_time_due_to_prereqs chosen (completion_time st) d now of
        None \<Rightarrow> Inl (mark_done mid cap st)
      | Some prereq_ready_now \<Rightarrow>
          if prereq_ready_now > now + EPS then
            (if prereq_ready_now \<ge> cap - EPS then Inl (mark_done mid cap st)
             else
               (case (case current_mold st mid of
                        None \<Rightarrow> None
                      | Some cm \<Rightarrow> map_option (Pair cm) (mold_busy st d cm)) of
                  Some (cm, intervals) \<Rightarrow>
                    if \<not> interval_is_free intervals now prereq_ready_now then
                      Inl (wait_for_window d machine cap now
                             (next_mold_free_time_for_window intervals now
                                (prereq_ready_now - now) cap) st)
                    else
                      Inr (emit_wait d machine cap now prereq_ready_now
                             (reserve d cm intervals now prereq_ready_now st),
                           prereq_ready_now)
                | None \<Rightarrow> Inr (emit_wait d machine cap now prereq_ready_now st, prereq_ready_now)))
          else Inr (st, now))"

definition produce ::
  "decode_env \<Rightarrow> int \<Rightarrow> Machine \<Rightarrow> rat \<Rightarrow> ProductComponent \<Rightarrow> rat \<Rightarrow> dstate \<Rightarrow> dstate" where
  "produce E d machine cap chosen now st =
     (let mid = m_id machine;
          per_piece_h = piece_hours (cycle_time_sec chosen)
      in if per_piece_h \<le> 0 then mark_done mid cap st
         else
           (case mold_busy st d (c_mold_id chosen) of
              None \<Rightarrow> st\<lparr>raised := Some (KeyError (c_mold_id chosen))\<rparr>
            | Some intervals \<Rightarrow>
                (let start_prod = now;
                     hard_end = (case next_busy_start intervals start_prod of
                                   None \<Rightarrow> cap | Some nxt_busy \<Rightarrow> min cap nxt_busy);
                     available_run_h = hard_end - start_prod
                 in if available_run_h < per_piece_h - EPS then mark_done mid cap st
                    else
                      (let max_qty_fit = \<lfloor>available_run_h / per_piece_h\<rfloor>;
                           qty = min (remaining st (c_id chosen)) max_qty_fit
                       in if qty \<le> 0 then mark_done mid cap st
                          else
                            (let used_h = of_int qty * per_piece_h;
                                 end_prod = start_prod + used_h
                             in if \<not> interval_is_free intervals start_prod end_prod then
                                  wait_for_window d machine cap start_prod
                                    (next_mold_free_time_for_window intervals start_prod per_piece_h cap) st
                                else commit_produce d machine cap chosen intervals qty start_prod st)))))"

definition active_machines :: "decode_env \<Rightarrow> dstate \<Rightarrow> Machine list" where
  "active_machines E st =
     filter (\<lambda>m. \<not> done_m st (m_id m) \<and> t_m st (m_id m) < usable (machines E) (m_id m) - EPS)
            (machines E)"

text \<open>The part of an iteration after a candidate has been chosen.\<close>

definition run_chosen ::
  "decode_env \<Rightarrow> int \<Rightarrow> Machine \<Rightarrow> rat \<Rightarrow> candidate \<Rightarrow> rat \<Rightarrow> dstate \<Rightarrow> dstate" where
  "run_chosen E d machine cap x now st =
     (case x of (sticky, color_match, mold_match, latest_start, rk, chosen,
                 need_color_change, need_mold_change) \<Rightarrow>
        (case change_color E d machine cap chosen need_color_change now st of
           Inl st' \<Rightarrow> st'
         | Inr (st1, now1) \<Rightarrow>
             (case change_mold E d machine cap chosen need_mold_change now1 st1 of
                Inl st' \<Rightarrow> st'
              | Inr (st2, now2) \<Rightarrow>
                  (case prereq_wait E d machine cap chosen now2 st2 of
                     Inl st' \<Rightarrow> st'
                   | Inr (st3, now3) \<Rightarrow> produce E d machine cap chosen now3 st3))))"

text \<open>One iteration of \<^verbatim>\<open>while True\<close> for a day: the machine with the earliest
  clock (the sort is stable, so ties go to the input order), the scan, then either a
  wait, the end of the machine's day, or the chosen candidate.\<close>

definition slot_step :: "decode_env \<Rightarrow> int \<Rightarrow> dstate \<Rightarrow> dstate" where
  "slot_step E d st =
     (case sort_key (\<lambda>m. t_m st (m_id m)) (active_machines E st) of
        [] \<Rightarrow> st
      | machine # others \<Rightarrow>
          (let mid = m_id machine;
               now = t_m st mid;
               cap = usable (machines E) mid;
               scanned = fold (scan_component E st d machine now cap) (comp_order E) ([], []);
               candidates = fst scanned;
               wait_candidates_next_times = snd scanned
           in if candidates = [] then
                (if wait_candidates_next_times \<noteq> [] then
                   (let t_next = py_min wait_candidates_next_times
                    in if t_next > now + EPS then emit_wait d machine cap now t_next st
                       else mark_done mid cap st)
                 else mark_done mid cap st)
              else
                (case select_candidates st mid candidates of
                   [] \<Rightarrow> st\<lparr>raised := Some IndexError\<rparr>
                 | x # xs \<Rightarrow> run_chosen E d machine cap x now st)))"

definition slot_cond :: "decode_env \<Rightarrow> dstate \<Rightarrow> bool" where
  "slot_cond E st = (raised st = None \<and> active_machines E st \<noteq> [])"

section \<open>The day loop and the decoder\<close>

definition day_init :: "decode_env \<Rightarrow> dstate \<Rightarrow> dstate" where
  "day_init E st =
     st\<lparr>t_m := (\<lambda>mid. 0), seq_m := (\<lambda>mid. 1),
        done_m := (\<lambda>mid. usable (machines E) mid \<le> EPS),
        current_mold := (\<lambda>mid. fst (machine_state st mid)),
        current_color := (\<lambda>mid. fst (snd (machine_state st mid))),
        last_component := (\<lambda>mid. snd (snd (machine_state st mid)))\<rparr>"

definition day_end :: "decode_env \<Rightarrow> dstate \<Rightarrow> dstate" where
  "day_end E st =
     st\<lparr>machine_state :=
          fold (\<lambda>m ms. ms(m_id m := (current_mold st (m_id m), current_color st (m_id m),
                                      last_component st (m_id m))))
               (machines E) (machine_state st)\<rparr>"

definition run_day :: "decode_env \<Rightarrow> int \<Rightarrow> dstate \<Rightarrow> dstate option" where
  "run_day E d st =
     map_option (day_end E) (while_option (slot_cond E) (slot_step E d) (day_init E st))"

text \<open>\<^verbatim>\<open>for day in range(1, month_days + 1)\<close>; an exception ends the loop.\<close>

fun run_days :: "decode_env \<Rightarrow> int list \<Rightarrow> dstate \<Rightarrow> dstate option" where
  "run_days E [] st = Some st"
| "run_days E (d # ds) st =
     (case run_day E d st of
        None \<Rightarrow> None
      | Some st' \<Rightarrow> if raised st' \<noteq> None then Some st' else run_days E ds st')"

text \<open>\<^verbatim>\<open>rank = {cid: i for i, cid in enumerate(genome)}\<close>: the last position of an id
  wins.\<close>

definition rank_of :: "string list \<Rightarrow> string \<rightharpoonup> int" where
  "rank_of genome = map_of (rev (zip genome (map int [0..<length genome])))"

definition molds_by_id_of :: "Mold list \<Rightarrow> string \<rightharpoonup> Mold" where
  "molds_by_id_of molds = map_of (rev (map (\<lambda>m. (mo_id m, m)) molds))"

definition initial_state :: "ProductComponent list \<Rightarrow> Mold list \<Rightarrow> dstate" where
  "initial_state components molds =
     \<lparr>remaining = fold (\<lambda>c r. r(c_id c := quantity c)) components (\<lambda>cid. 0),
      completion_time = Map.empty,
      mold_busy = (\<lambda>d mold. if molds_by_id_of molds mold = None then None else Some []),
      machine_state = (\<lambda>mid. (None, None, None)),
      component_owner = Map.empty,
      tasks = [],
      t_m = (\<lambda>mid. 0), seq_m = (\<lambda>mid. 1), done_m = (\<lambda>mid. False),
      current_mold = (\<lambda>mid. None), current_color = (\<lambda>mid. None),
      last_component = (\<lambda>mid. None),
      raised = None\<rparr>"

text \<open>\<^verbatim>\<open>{cid: qty for cid, qty in remaining.items() if qty > 0}\<close>, as the list of its
  items in the dictionary's order.\<close>

definition unmet_of :: "ProductComponent list \<Rightarrow> (string \<Rightarrow> int) \<Rightarrow> (string \<times> int) list" where
  "unmet_of components rem =
     map (\<lambda>cid. (cid, rem cid)) (filter (\<lambda>cid. rem cid > 0) (dict_keys (map c_id components)))"

text \<open>\<^verbatim>\<open>comp_order = sorted(topo, key=lambda c: rank.get(c.id, 10**9))\<close>: the list
  the decoder scans. Python's \<^verbatim>\<open>sorted\<close> is stable, as \<open>sort_key\<close> is.\<close>

definition comp_order_of :: "string list \<Rightarrow> ProductComponent list \<Rightarrow> ProductComponent list" where
  "comp_order_of genome topo = sort_key (\<lambda>c. rank_get (rank_of genome) (c_id c)) topo"

text \<open>\<^verbatim>\<open>_decode_v2\<close>. \<open>None\<close>: a loop does not end; \<open>Some (Inl e)\<close>: the exception
  \<open>e\<close>; \<open>Some (Inr (tasks, unmet))\<close>: the result.\<close>

definition decode_v2 ::
  "string list \<Rightarrow> ProductComponent list \<Rightarrow> Machine list \<Rightarrow> Mold list \<Rightarrow> int \<Rightarrow> rat \<Rightarrow> rat \<Rightarrow>
   (error + Task list \<times> (string \<times> int) list) option" where
  "decode_v2 genome components ms molds month_days mch cch =
     (case topological_order components of
        None \<Rightarrow> None
      | Some (Inl e) \<Rightarrow> Some (Inl e)
      | Some (Inr topo) \<Rightarrow>
          (let rk = rank_of genome;
               E = \<lparr>machines = ms, molds_by_id = molds_by_id_of molds,
                    mold_change_time_hours = mch, color_change_time_hours = cch,
                    comp_order = comp_order_of genome topo,
                    rank = rk\<rparr>
           in case run_days E [1..month_days] (initial_state components molds) of
                None \<Rightarrow> None
              | Some st \<Rightarrow>
                  (case raised st of
                     Some e \<Rightarrow> Some (Inl e)
                   | None \<Rightarrow> Some (Inr (tasks st, unmet_of components (remaining st))))))"

section \<open>Floating-point numbers\<close>

text \<open>
  Python's \<^verbatim>\<open>float\<close> is the IEEE 754 binary64 format, and its arithmetic rounds the
  exact result to the nearest double, ties to even. \<open>Fin x\<close> is the finite double of
  value \<open>x\<close>; the two zeros are not told apart (no operation of the source reads the
  sign of a zero).
\<close>

datatype fl = Fin rat | PInf | NInf | NaN

text \<open>\<open>log2i n\<close> is \<open>\<lfloor>log\<^sub>2 n\<rfloor>\<close> for \<open>n \<ge> 1\<close>, \<open>pow2i k\<close> is \<open>2\<^sup>k\<close> for \<open>k \<ge> 0\<close> (by squaring),
  \<open>pow2 k\<close> is \<open>2\<^sup>k\<close> for every integer \<open>k\<close>, and \<open>floor_log2 x\<close> is
  \<open>\<lfloor>log\<^sub>2 x\<rfloor>\<close> for a rational \<open>x > 0\<close>.\<close>

function log2i :: "int \<Rightarrow> int" where
  "log2i n = (if n < 2 then 0 else 1 + log2i (n div 2))"
  by pat_completeness auto
termination
  by (relation "measure nat") auto

declare log2i.simps [simp del]

function pow2i :: "int \<Rightarrow> int" where
  "pow2i k = (if k \<le> 0 then 1
           else if even k then (let h = pow2i (k div 2) in h * h)
           else 2 * pow2i (k - 1))"
  by pat_completeness auto
termination
  by (relation "measure nat") auto

declare pow2i.simps [simp del]

definition pow2 :: "int \<Rightarrow> rat" where
  "pow2 k = (if 0 \<le> k then of_int (pow2i k) else 1 / of_int (pow2i (- k)))"

definition floor_log2 :: "rat \<Rightarrow> int" where
  "floor_log2 x =
     (let k = log2i (fst (quotient_of x)) - log2i (snd (quotient_of x))
      in if pow2 k \<le> x then k else k - 1)"

text \<open>Rounding to the nearest integer, a tie to the even one.\<close>

definition round_even :: "rat \<Rightarrow> int" where
  "round_even y =
     (let f = \<lfloor>y\<rfloor>; r = y - of_int f
      in if r < 1 / 2 then f else if 1 / 2 < r then f + 1 else if even f then f else f + 1)"

text \<open>The double nearest to \<open>x\<close>: 53 significant bits at the exponent \<open>e\<close> of \<open>x\<close>
  (not below \<open>-1022\<close>, where the subnormal numbers begin), a tie to the even
  significand, an infinity when the result would reach \<open>2\<^sup>1\<^sup>0\<^sup>2\<^sup>4\<close>.\<close>

definition round64 :: "rat \<Rightarrow> fl" where
  "round64 x =
     (if x = 0 then Fin 0
      else
        (let a = \<bar>x\<bar>;
             e = max (- 1022) (floor_log2 a);
             q = pow2 (e - 52);
             n = round_even (a / q)
         in if 1024 \<le> e \<or> (e = 1023 \<and> 9007199254740992 \<le> n)
            then (if 0 < x then PInf else NInf)
            else Fin (if 0 < x then of_int n * q else - (of_int n * q))))"

text \<open>Addition, negation, subtraction and multiplication of doubles.\<close>

fun fadd :: "fl \<Rightarrow> fl \<Rightarrow> fl" where
  "fadd (Fin a) (Fin b) = round64 (a + b)"
| "fadd (Fin a) y = y"
| "fadd NaN y = NaN"
| "fadd PInf y = (if y = NInf \<or> y = NaN then NaN else PInf)"
| "fadd NInf y = (if y = PInf \<or> y = NaN then NaN else NInf)"

fun fneg :: "fl \<Rightarrow> fl" where
  "fneg (Fin a) = Fin (- a)"
| "fneg PInf = NInf"
| "fneg NInf = PInf"
| "fneg NaN = NaN"

definition fsub :: "fl \<Rightarrow> fl \<Rightarrow> fl" where
  "fsub x y = fadd x (fneg y)"

fun fl_sign :: "fl \<Rightarrow> int" where
  "fl_sign (Fin a) = (if a < 0 then - 1 else if a = 0 then 0 else 1)"
| "fl_sign PInf = 1"
| "fl_sign NInf = - 1"
| "fl_sign NaN = 0"

fun fmul :: "fl \<Rightarrow> fl \<Rightarrow> fl" where
  "fmul (Fin a) (Fin b) = round64 (a * b)"
| "fmul NaN y = NaN"
| "fmul x NaN = NaN"
| "fmul x y = (if fl_sign x * fl_sign y = 0 then NaN
               else if 0 < fl_sign x * fl_sign y then PInf else NInf)"

text \<open>\<^verbatim>\<open>float(n)\<close> of an integer, also where an integer meets a float in a product:
  the nearest double, \<^verbatim>\<open>OverflowError\<close> when there is none.\<close>

definition float_of_int :: "int \<Rightarrow> error + fl" where
  "float_of_int n = (case round64 (of_int n) of Fin x \<Rightarrow> Inr (Fin x) | _ \<Rightarrow> Inl OverflowError)"

text \<open>\<^verbatim>\<open>x < y\<close> on doubles: false when one of them is NaN.\<close>

fun fl_less :: "fl \<Rightarrow> fl \<Rightarrow> bool" where
  "fl_less (Fin a) (Fin b) = (a < b)"
| "fl_less NaN y = False"
| "fl_less x NaN = False"
| "fl_less NInf y = (y \<noteq> NInf)"
| "fl_less x PInf = (x \<noteq> PInf)"
| "fl_less x y = False"

section \<open>Fitness\<close>

text \<open>\<^verbatim>\<open>d[k] = v\<close> on a dictionary kept as the list of its items: a known key keeps
  its place, a new key goes to the end.\<close>

fun dict_set :: "string \<Rightarrow> int \<Rightarrow> (string \<times> int) list \<Rightarrow> (string \<times> int) list" where
  "dict_set k v [] = [(k, v)]"
| "dict_set k v (p # ps) = (if fst p = k then (k, v) # ps else p # dict_set k v ps)"

definition dict_get :: "(string \<times> int) list \<Rightarrow> string \<Rightarrow> int \<Rightarrow> int" where
  "dict_get items k dflt = (case map_of items k of None \<Rightarrow> dflt | Some v \<Rightarrow> v)"

text \<open>The variables of the loop over the tasks: \<^verbatim>\<open>produced_total\<close> is an integer,
  the two sums of hours are doubles. The hours of a task are finite numbers.\<close>

record fitness_acc =
  produced_total :: int
  changeover_hours :: fl
  wait_hours :: fl
  first_prod_day :: "(string \<times> int) list"

definition fitness_step :: "Task \<Rightarrow> fitness_acc \<Rightarrow> fitness_acc" where
  "fitness_step tk acc =
     (case task_type tk of
        PRODUCE mold cid cname col qty \<Rightarrow>
          acc\<lparr>produced_total := produced_total acc + qty,
              first_prod_day := dict_set cid (min (dict_get (first_prod_day acc) cid (10 ^ 9)) (day tk))
                                  (first_prod_day acc)\<rparr>
      | CHANGE_MOLD from_mold to_mold \<Rightarrow>
          acc\<lparr>changeover_hours := fadd (changeover_hours acc) (Fin (used_hours tk))\<rparr>
      | CHANGE_COLOR from_color to_color \<Rightarrow>
          acc\<lparr>changeover_hours := fadd (changeover_hours acc) (Fin (used_hours tk))\<rparr>
      | WAIT \<Rightarrow> acc\<lparr>wait_hours := fadd (wait_hours acc) (Fin (used_hours tk))\<rparr>)"

text \<open>The loop over \<^verbatim>\<open>first_prod_day.items()\<close>; \<^verbatim>\<open>comps_by_id[cid]\<close> raises
  \<open>KeyError\<close> at an id that no component has, and \<^verbatim>\<open>(d - latest_start) * 10_000.0\<close>
  converts the integer to a double.\<close>

fun late_start_loop ::
  "(string \<rightharpoonup> ProductComponent) \<Rightarrow> (string \<times> int) list \<Rightarrow> fl \<Rightarrow> error + fl" where
  "late_start_loop comps_by_id [] late_start_pen = Inr late_start_pen"
| "late_start_loop comps_by_id ((cid, d) # rest) late_start_pen =
     (case comps_by_id cid of
        None \<Rightarrow> Inl (KeyError cid)
      | Some c \<Rightarrow>
          (let latest_start0 = due_day c - lead_time_days c;
               latest_start = (if latest_start0 < 1 then 1 else latest_start0)
           in if d > latest_start then
                (case float_of_int (d - latest_start) of
                   Inl e \<Rightarrow> Inl e
                 | Inr days_late \<Rightarrow>
                     late_start_loop comps_by_id rest
                       (fadd late_start_pen (fmul days_late (Fin 10000))))
              else late_start_loop comps_by_id rest late_start_pen))"

text \<open>\<^verbatim>\<open>_fitness_v2\<close>: the unmet penalty first, then the loop over the tasks, the
  late-start loop, and the weighted difference, evaluated from the left.\<close>

definition fitness_v2 ::
  "Task list \<Rightarrow> (string \<times> int) list \<Rightarrow> ProductComponent list \<Rightarrow> error + fl" where
  "fitness_v2 tks unmet components =
     (let comps_by_id = by_id components in
      case float_of_int (sum_list (map snd unmet)) of
        Inl e \<Rightarrow> Inl e
      | Inr unmet_sum \<Rightarrow>
          (let unmet_pen = fmul unmet_sum (Fin 1000000);
               acc = fold fitness_step tks
                       \<lparr>produced_total = 0, changeover_hours = Fin 0, wait_hours = Fin 0,
                        first_prod_day = []\<rparr>
           in case late_start_loop comps_by_id (first_prod_day acc) (Fin 0) of
                Inl e \<Rightarrow> Inl e
              | Inr late_start_pen \<Rightarrow>
                  (case float_of_int (produced_total acc) of
                     Inl e \<Rightarrow> Inl e
                   | Inr produced \<Rightarrow>
                       Inr (fsub (fsub (fsub (fsub (fmul produced (Fin 1)) unmet_pen)
                                             late_start_pen)
                                       (fmul (changeover_hours acc) (Fin 50)))
                                 (fmul (wait_hours acc) (Fin 5))))))"

section \<open>The random source\<close>

text \<open>
  Python's \<^verbatim>\<open>random\<close> module is a library, not code of this repository. Its state is
  modelled as a tape of draws that each call consumes: every outcome the library can
  produce is the outcome of some tape. \<open>randbelow n\<close> is a draw below \<open>n\<close>;
  \<open>sample2 n\<close> is \<^verbatim>\<open>random.sample(range(n), 2)\<close>, two different indices below
  \<open>n\<close> (the source calls it with \<open>n \<ge> 2\<close> only); \<open>shuffle\<close> is
  \<^verbatim>\<open>random.shuffle\<close>, by exchanges from the last position down; \<open>random_unit\<close> is
  \<^verbatim>\<open>random.random()\<close>, a multiple of \<open>2\<^sup>-\<^sup>5\<^sup>3\<close> in \<open>[0, 1)\<close>.
\<close>

type_synonym rng = "nat list"

definition randbelow :: "nat \<Rightarrow> rng \<Rightarrow> nat \<times> rng" where
  "randbelow n r = (case r of [] \<Rightarrow> (0, []) | x # r' \<Rightarrow> (x mod n, r'))"

definition sample2 :: "nat \<Rightarrow> rng \<Rightarrow> (nat \<times> nat) \<times> rng" where
  "sample2 n r =
     (let ir = randbelow n r;
          kr = randbelow (n - 1) (snd ir)
      in ((fst ir, if fst kr \<ge> fst ir then fst kr + 1 else fst kr), snd kr))"

fun shuffle_from :: "nat \<Rightarrow> string list \<Rightarrow> rng \<Rightarrow> string list \<times> rng" where
  "shuffle_from 0 xs r = (xs, r)"
| "shuffle_from (Suc i) xs r =
     (let jr = randbelow (Suc i + 1) r
      in shuffle_from i (xs[Suc i := xs ! fst jr, fst jr := xs ! Suc i]) (snd jr))"

definition shuffle :: "string list \<Rightarrow> rng \<Rightarrow> string list \<times> rng" where
  "shuffle xs r = shuffle_from (length xs - 1) xs r"

definition random_unit :: "rng \<Rightarrow> rat \<times> rng" where
  "random_unit r =
     (case r of [] \<Rightarrow> (0, []) | x # r' \<Rightarrow> (of_int (int x mod 2 ^ 53) / 2 ^ 53, r'))"

section \<open>The genetic algorithm\<close>

definition random_genome :: "ProductComponent list \<Rightarrow> rng \<Rightarrow> string list \<times> rng" where
  "random_genome components r = shuffle (map c_id components) r"

definition mutate_swap :: "string list \<Rightarrow> rng \<Rightarrow> string list \<times> rng" where
  "mutate_swap genome r =
     (if length genome < 2 then (genome, r)
      else (let ijr = sample2 (length genome) r;
                i = fst (fst ijr);
                j = snd (fst ijr)
            in (genome[i := genome ! j, j := genome ! i], snd ijr)))"

definition crossover_ox :: "string list \<Rightarrow> string list \<Rightarrow> rng \<Rightarrow> string list \<times> rng" where
  "crossover_ox p1 p2 r =
     (let n = length p1 in
      if n < 2 then (p1, r)
      else (let ijr = sample2 n r;
                a = min (fst (fst ijr)) (snd (fst ijr));
                b = max (fst (fst ijr)) (snd (fst ijr));
                mid = take (b - a) (drop a p1);
                rest = filter (\<lambda>x. x \<notin> set mid) p2
            in (take a rest @ mid @ drop a rest, snd ijr)))"

text \<open>The result of a computation that may raise or not end, and its sequencing.\<close>

definition bind_r :: "(error + 'a) option \<Rightarrow> ('a \<Rightarrow> (error + 'b) option) \<Rightarrow> (error + 'b) option" where
  "bind_r m f = (case m of None \<Rightarrow> None | Some (Inl e) \<Rightarrow> Some (Inl e) | Some (Inr x) \<Rightarrow> f x)"

text \<open>\<^verbatim>\<open>[_random_genome(components) for _ in range(pop_size)]\<close>.\<close>

fun init_population :: "nat \<Rightarrow> ProductComponent list \<Rightarrow> rng \<Rightarrow> string list list \<times> rng" where
  "init_population 0 components r = ([], r)"
| "init_population (Suc k) components r =
     (let gr = random_genome components r;
          rest = init_population k components (snd gr)
      in (fst gr # fst rest, snd rest))"

text \<open>The scoring loop; \<open>dec\<close> is \<^verbatim>\<open>_decode_v2\<close> at the inputs of the run.\<close>

fun score_population ::
  "(string list \<Rightarrow> (error + Task list \<times> (string \<times> int) list) option) \<Rightarrow>
   ProductComponent list \<Rightarrow> string list list \<Rightarrow> (error + (fl \<times> string list) list) option" where
  "score_population dec components [] = Some (Inr [])"
| "score_population dec components (g # gs) =
     bind_r (dec g) (\<lambda>res.
       case fitness_v2 (fst res) (snd res) components of
         Inl e \<Rightarrow> Some (Inl e)
       | Inr score \<Rightarrow>
           bind_r (score_population dec components gs) (\<lambda>rest. Some (Inr ((score, g) # rest))))"

definition elite_k_of :: "nat \<Rightarrow> nat" where
  "elite_k_of pop_size = max 2 (pop_size div 5)"

text \<open>The binary tournaments: \<^verbatim>\<open>while len(new_pop) < pop_size\<close>. \<^verbatim>\<open>scored\<close> has
  \<open>pop_size\<close> entries and the indices are below \<open>pop_size\<close>.\<close>

function tournament_fill ::
  "nat \<Rightarrow> (fl \<times> string list) list \<Rightarrow> string list list \<Rightarrow> rng \<Rightarrow> string list list \<times> rng" where
  "tournament_fill pop_size scored new_pop r =
     (if length new_pop < pop_size then
        (let ijr = sample2 pop_size r;
             i = fst (fst ijr);
             j = snd (fst ijr);
             parent = (if fl_less (fst (scored ! j)) (fst (scored ! i)) then snd (scored ! i)
                       else snd (scored ! j))
         in tournament_fill pop_size scored (new_pop @ [parent]) (snd ijr))
      else (new_pop, r))"
  by pat_completeness auto
termination
  by (relation "measure (\<lambda>(pop_size, scored, new_pop, r). pop_size - length new_pop)") auto

declare tournament_fill.simps [simp del]

text \<open>\<^verbatim>\<open>for i in range(0, pop_size, 2)\<close>: both children of each consecutive pair; the
  last parent of an odd pool is carried through. \<^verbatim>\<open>new_pop\<close> has \<open>pop_size\<close>
  entries.\<close>

function breed :: "nat \<Rightarrow> nat \<Rightarrow> string list list \<Rightarrow> rng \<Rightarrow> string list list \<times> rng" where
  "breed i pop_size new_pop r =
     (if i < pop_size then
        (if i + 1 \<ge> pop_size then ([new_pop ! i], r)
         else
           (let c1 = crossover_ox (new_pop ! i) (new_pop ! (i + 1)) r;
                c2 = crossover_ox (new_pop ! (i + 1)) (new_pop ! i) (snd c1);
                rest = breed (i + 2) pop_size new_pop (snd c2)
            in (fst c1 # fst c2 # fst rest, snd rest)))
      else ([], r))"
  by pat_completeness auto
termination
  by (relation "measure (\<lambda>(i, pop_size, new_pop, r). pop_size - i)") auto

declare breed.simps [simp del]

text \<open>\<^verbatim>\<open>for i in range(len(children))\<close>: one draw per child, a swap when the draw is
  below the mutation rate.\<close>

fun mutate_all :: "rat \<Rightarrow> string list list \<Rightarrow> rng \<Rightarrow> string list list \<times> rng" where
  "mutate_all mutation_rate [] r = ([], r)"
| "mutate_all mutation_rate (c # cs) r =
     (let ur = random_unit r;
          cr = (if fst ur < mutation_rate then mutate_swap c (snd ur) else (c, snd ur));
          rest = mutate_all mutation_rate cs (snd cr)
      in (fst cr # fst rest, snd rest))"

record ga_state =
  population :: "string list list"
  best_score :: "fl option"
  best_genome :: "string list option"
  rng_state :: rng

text \<open>The parent pool of a generation: the elite, then the tournament winners.\<close>

definition parent_pool ::
  "nat \<Rightarrow> (fl \<times> string list) list \<Rightarrow> rng \<Rightarrow> string list list \<times> rng" where
  "parent_pool pop_size scored r =
     tournament_fill pop_size scored (map snd (take (elite_k_of pop_size) scored)) r"

text \<open>\<^verbatim>\<open>scored.sort(key=lambda x: x[0], reverse=True)\<close>: descending and stable.
  \<open>desc_key\<close> orders the scores from the largest down. (The place it gives to NaN is
  never read: a score is a difference of a finite number and of penalties that are not
  negative.)\<close>

fun desc_key :: "fl \<Rightarrow> int \<times> rat" where
  "desc_key PInf = (0, 0)"
| "desc_key (Fin x) = (1, - x)"
| "desc_key NInf = (2, 0)"
| "desc_key NaN = (3, 0)"

definition sort_scored :: "(fl \<times> string list) list \<Rightarrow> (fl \<times> string list) list" where
  "sort_scored scored = sort_key (\<lambda>x. desc_key (fst x)) scored"

text \<open>The body of \<^verbatim>\<open>for _ in range(n_generations)\<close>.\<close>

definition ga_generation ::
  "(string list \<Rightarrow> (error + Task list \<times> (string \<times> int) list) option) \<Rightarrow>
   ProductComponent list \<Rightarrow> nat \<Rightarrow> rat \<Rightarrow> ga_state \<Rightarrow> (error + ga_state) option" where
  "ga_generation dec components pop_size mutation_rate s =
     bind_r (score_population dec components (population s)) (\<lambda>scored0.
       (let scored = sort_scored scored0 in
        case scored of
          [] \<Rightarrow> Some (Inl IndexError)
        | first # others \<Rightarrow>
            (let improved = (case best_score s of None \<Rightarrow> True | Some b \<Rightarrow> fl_less b (fst first));
                 bs = (if improved then Some (fst first) else best_score s);
                 bg = (if improved then Some (snd first) else best_genome s);
                 pool = parent_pool pop_size scored (rng_state s);
                 children = breed 0 pop_size (fst pool) (snd pool);
                 mutated = mutate_all mutation_rate (fst children) (snd children)
             in Some (Inr \<lparr>population = take pop_size (fst mutated), best_score = bs,
                           best_genome = bg, rng_state = snd mutated\<rparr>))))"

fun ga_loop ::
  "(string list \<Rightarrow> (error + Task list \<times> (string \<times> int) list) option) \<Rightarrow>
   ProductComponent list \<Rightarrow> nat \<Rightarrow> rat \<Rightarrow> nat \<Rightarrow> ga_state \<Rightarrow> (error + ga_state) option" where
  "ga_loop dec components pop_size mutation_rate 0 s = Some (Inr s)"
| "ga_loop dec components pop_size mutation_rate (Suc n) s =
     bind_r (ga_generation dec components pop_size mutation_rate s)
            (ga_loop dec components pop_size mutation_rate n)"

definition ga_initial_state :: "ProductComponent list \<Rightarrow> nat \<Rightarrow> rng \<Rightarrow> ga_state" where
  "ga_initial_state components pop_size r =
     (let pr = init_population pop_size components r
      in \<lparr>population = fst pr, best_score = None, best_genome = None, rng_state = snd pr\<rparr>)"

text \<open>\<^verbatim>\<open>ga_optimize_v2\<close>; the result is (assignments, unmet, score). \<open>r\<close> is the state
  of the random source at the call.\<close>

definition ga_optimize_v2 ::
  "ProductComponent list \<Rightarrow> Machine list \<Rightarrow> Mold list \<Rightarrow> int \<Rightarrow> rat \<Rightarrow> rat \<Rightarrow> int \<Rightarrow> int \<Rightarrow> rat \<Rightarrow>
   rng \<Rightarrow> (error + Task list \<times> (string \<times> int) list \<times> fl) option" where
  "ga_optimize_v2 components ms molds month_days mch cch pop_size n_generations mutation_rate r =
     (if month_days < 1 then Some (Inl (ValueError ''month_days must be >= 1''))
      else if pop_size < 2 then Some (Inl (ValueError ''pop_size must be >= 2''))
      else if n_generations < 1 then Some (Inl (ValueError ''n_generations must be >= 1''))
      else if \<not> (0 \<le> mutation_rate \<and> mutation_rate \<le> 1)
      then Some (Inl (ValueError ''mutation_rate must be between 0 and 1''))
      else
        (let dec = (\<lambda>g. decode_v2 g components ms molds month_days mch cch) in
         bind_r (ga_loop dec components (nat pop_size) mutation_rate (nat n_generations)
                   (ga_initial_state components (nat pop_size) r)) (\<lambda>s.
           case best_genome s of
             None \<Rightarrow> Some (Inl TypeError)
           | Some g \<Rightarrow>
               bind_r (dec g) (\<lambda>res.
                 case fitness_v2 (fst res) (snd res) components of
                   Inl e \<Rightarrow> Some (Inl e)
                 | Inr final_score \<Rightarrow> Some (Inr (fst res, snd res, final_score))))))"

section \<open>Permutations: the random source, crossover and mutation\<close>

lemma randbelow_less: "0 < n \<Longrightarrow> fst (randbelow n r) < n"
  by (auto simp: randbelow_def split: list.splits)

lemma sample2_bounds:
  assumes "2 \<le> n"
  shows "fst (fst (sample2 n r)) < n" "snd (fst (sample2 n r)) < n"
    "fst (fst (sample2 n r)) \<noteq> snd (fst (sample2 n r))"
proof -
  have a: "fst (randbelow n r) < n" using assms by (simp add: randbelow_less)
  have b: "fst (randbelow (n - 1) (snd (randbelow n r))) < n - 1"
    using assms by (simp add: randbelow_less)
  show "fst (fst (sample2 n r)) < n" using a by (simp add: sample2_def Let_def)
  show "snd (fst (sample2 n r)) < n" using a b by (auto simp: sample2_def Let_def)
  show "fst (fst (sample2 n r)) \<noteq> snd (fst (sample2 n r))"
    by (simp add: sample2_def Let_def)
qed

lemma mutate_swap_mset: "mset (fst (mutate_swap genome r)) = mset genome"
proof (cases "length genome < 2")
  case True
  then show ?thesis by (simp add: mutate_swap_def)
next
  case False
  then have n: "2 \<le> length genome" by simp
  show ?thesis
    using False sample2_bounds(1,2)[OF n, of r]
    by (simp add: mutate_swap_def Let_def mset_swap)
qed

lemma ox_mset:
  assumes "distinct p1" "distinct p2" "set p1 = set p2"
  shows "mset (take a (filter (\<lambda>x. x \<notin> set (take k (drop a p1))) p2)
               @ take k (drop a p1)
               @ drop a (filter (\<lambda>x. x \<notin> set (take k (drop a p1))) p2)) = mset p1"
proof -
  define mid where "mid = take k (drop a p1)"
  define rest where "rest = filter (\<lambda>x. x \<notin> set mid) p2"
  have dm: "distinct mid" using assms(1) by (simp add: mid_def)
  have sm: "set mid \<subseteq> set p2"
    using assms(3) set_take_subset set_drop_subset unfolding mid_def by fast
  have e1: "mset (filter (\<lambda>x. x \<in> set mid) p2) = mset mid"
  proof (rule iffD1[OF set_eq_iff_mset_eq_distinct])
    show "distinct (filter (\<lambda>x. x \<in> set mid) p2)" using assms(2) by simp
    show "distinct mid" by (rule dm)
    show "set (filter (\<lambda>x. x \<in> set mid) p2) = set mid" using sm by auto
  qed
  have e2: "mset (filter (\<lambda>x. x \<in> set mid) p2) + mset rest = mset p2"
    unfolding rest_def by simp
  have e3: "mset p2 = mset p1"
    using assms by (simp add: set_eq_iff_mset_eq_distinct)
  have "mset (take a rest) + mset (drop a rest) = mset rest"
    by (metis append_take_drop_id mset_append)
  then have e4: "mset (take a rest @ mid @ drop a rest) = mset mid + mset rest"
    by (simp add: ac_simps)
  have "mset (take a rest @ mid @ drop a rest) = mset p1"
    by (metis e1 e2 e3 e4)
  then show ?thesis unfolding mid_def rest_def .
qed

lemma crossover_ox_mset:
  assumes "distinct p1" "distinct p2" "set p1 = set p2"
  shows "mset (fst (crossover_ox p1 p2 r)) = mset p1"
  using ox_mset[OF assms] by (simp add: crossover_ox_def Let_def)

section \<open>Kahn's algorithm: the result of the topological order\<close>

subsection \<open>Dictionaries\<close>

lemma set_dict_keys [simp]: "set (dict_keys ks) = set ks"
  by (induction ks) auto

lemma distinct_dict_keys [simp]: "distinct (dict_keys ks)"
  by (induction ks) auto

lemma dict_keys_distinct: "distinct ks \<Longrightarrow> dict_keys ks = ks"
  by (induction ks) (auto simp: filter_id_conv)

lemma by_id_SomeD: "by_id cs cid = Some c \<Longrightarrow> c \<in> set cs \<and> c_id c = cid"
  unfolding by_id_def by (auto dest!: map_of_SomeD)

lemma by_id_None_iff: "by_id cs cid = None \<longleftrightarrow> cid \<notin> c_id ` set cs"
  unfolding by_id_def by (simp add: map_of_eq_None_iff image_image)


subsection \<open>The edges\<close>

lemma set_prereq_edges:
  "set (prereq_edges cs) = {(p, c_id c) | p c. c \<in> set cs \<and> p \<in> set (prerequisites c)}"
  unfolding prereq_edges_def by auto

lemma add_edges_Inr:
  "add_edges byid es (g, d) = Inr (g', d') \<Longrightarrow>
     (\<forall>e\<in>set es. byid (fst e) \<noteq> None)
     \<and> (\<forall>p. g' p = g p @ map snd (filter (\<lambda>e. fst e = p) es))
     \<and> (\<forall>x. d' x = d x + int (length (filter (\<lambda>e. snd e = x) es)))"
proof (induction es arbitrary: g d)
  case Nil
  then show ?case by simp
next
  case (Cons e es)
  obtain pr cid where e: "e = (pr, cid)" by (cases e)
  from Cons.prems e have known: "byid pr \<noteq> None"
    by (auto split: if_splits)
  with Cons.prems e have
    "add_edges byid es (g(pr := g pr @ [cid]), d(cid := d cid + 1)) = Inr (g', d')"
    by simp
  from Cons.IH[OF this] known e show ?case by auto
qed

lemma add_edges_Inl:
  "add_edges byid es gd = Inl err \<Longrightarrow>
     (\<exists>e\<in>set es. byid (fst e) = None) \<and> (\<exists>msg. err = ValueError msg)"
proof (induction es arbitrary: gd)
  case Nil
  then show ?case by simp
next
  case (Cons e es)
  obtain pr cid where e: "e = (pr, cid)" by (cases e)
  obtain g d where gd: "gd = (g, d)" by (cases gd)
  show ?case
  proof (cases "byid pr = None")
    case True
    with Cons.prems e gd show ?thesis by auto
  next
    case False
    with Cons.prems e gd have
      "add_edges byid es (g(pr := g pr @ [cid]), d(cid := d cid + 1)) = Inl err"
      by simp
    from Cons.IH[OF this] show ?thesis by auto
  qed
qed

subsection \<open>The inner loop\<close>

lemma fold_relax_fst:
  "fst (fold relax ns (d, q)) x = d x - int (count_list ns x)"
  by (induction ns arbitrary: d q) (auto simp: relax_def Let_def)

lemma fold_relax_snd:
  assumes "\<forall>x\<in>set ns. int (count_list ns x) \<le> d x"
  shows "\<exists>new. snd (fold relax ns (d, q)) = q @ new \<and> distinct new
           \<and> set new = {x \<in> set ns. d x = int (count_list ns x)}"
  using assms
proof (induction ns arbitrary: d q)
  case Nil
  then show ?case by simp
next
  case (Cons n ns)
  define d1 where "d1 = d(n := d n - 1)"
  define q1 where "q1 = (if d1 n = 0 then q @ [n] else q)"
  have step: "fold relax (n # ns) (d, q) = fold relax ns (d1, q1)"
    by (simp add: relax_def Let_def d1_def q1_def)
  have "n \<in> set (n # ns)" by simp
  with Cons.prems have "int (count_list (n # ns) n) \<le> d n" by blast
  then have head: "int (count_list ns n) + 1 \<le> d n" by simp
  have pre: "\<forall>x\<in>set ns. int (count_list ns x) \<le> d1 x"
  proof
    fix x assume x: "x \<in> set ns"
    show "int (count_list ns x) \<le> d1 x"
    proof (cases "x = n")
      case True
      then show ?thesis using head by (simp add: d1_def)
    next
      case False
      have "x \<in> set (n # ns)" using x by simp
      with Cons.prems have "int (count_list (n # ns) x) \<le> d x" by blast
      with False show ?thesis by (simp add: d1_def)
    qed
  qed
  from Cons.IH[OF pre, of q1] obtain new where
    new: "snd (fold relax ns (d1, q1)) = q1 @ new" "distinct new"
         "set new = {x \<in> set ns. d1 x = int (count_list ns x)}"
    by blast
  have mem: "\<And>x. (x \<in> set new) = (x \<in> set ns \<and> d1 x = int (count_list ns x))"
    using new(3) by blast
  have other: "\<And>x. x \<noteq> n \<Longrightarrow>
      (x \<in> set ns \<and> d1 x = int (count_list ns x))
        = (x \<in> set (n # ns) \<and> d x = int (count_list (n # ns) x))"
    by (simp add: d1_def)
  show ?case
  proof (cases "d1 n = 0")
    case True
    then have d1n: "d n = 1" by (simp add: d1_def)
    with head have "count_list ns n = 0" by simp
    then have nn: "n \<notin> set ns" by (simp add: count_list_0_iff)
    then have nnew: "n \<notin> set new" using mem by blast
    have a: "snd (fold relax (n # ns) (d, q)) = q @ (n # new)"
      using step new(1) True by (simp add: q1_def)
    have b: "distinct (n # new)" using new(2) nnew by simp
    have c: "set (n # new) = {x \<in> set (n # ns). d x = int (count_list (n # ns) x)}"
    proof (rule set_eqI)
      fix x
      show "(x \<in> set (n # new)) = (x \<in> {x \<in> set (n # ns). d x = int (count_list (n # ns) x)})"
      proof (cases "x = n")
        case True
        then show ?thesis using d1n \<open>count_list ns n = 0\<close> by simp
      next
        case False
        then show ?thesis using mem[of x] other[OF False] by simp
      qed
    qed
    from a b c show ?thesis by blast
  next
    case False
    then have d1n: "d n \<noteq> 1" by (simp add: d1_def)
    have a: "snd (fold relax (n # ns) (d, q)) = q @ new"
      using step new(1) False by (simp add: q1_def)
    have c: "set new = {x \<in> set (n # ns). d x = int (count_list (n # ns) x)}"
    proof (rule set_eqI)
      fix x
      show "(x \<in> set new) = (x \<in> {x \<in> set (n # ns). d x = int (count_list (n # ns) x)})"
      proof (cases "x = n")
        case True
        have "(n \<in> set ns \<and> d1 n = int (count_list ns n)) = (d n = int (count_list ns n) + 1)"
        proof
          assume "n \<in> set ns \<and> d1 n = int (count_list ns n)"
          then show "d n = int (count_list ns n) + 1" by (simp add: d1_def)
        next
          assume e: "d n = int (count_list ns n) + 1"
          with d1n have "count_list ns n \<noteq> 0" by simp
          then have "n \<in> set ns" by (simp add: count_list_0_iff)
          then show "n \<in> set ns \<and> d1 n = int (count_list ns n)"
            using e by (simp add: d1_def)
        qed
        then show ?thesis using True mem[of n] by (simp add: add.commute)
      next
        case False
        then show ?thesis using mem[of x] other[OF False] by simp
      qed
    qed
    from a new(2) c show ?thesis by blast
  qed
qed

subsection \<open>The invariant of the queue loop\<close>

text \<open>The number of edges into \<open>x\<close> whose source is not in \<open>seen\<close>.\<close>

definition in_count :: "(string \<times> string) list \<Rightarrow> string list \<Rightarrow> string \<Rightarrow> int" where
  "in_count es seen x = int (length (filter (\<lambda>e. snd e = x \<and> fst e \<notin> set seen) es))"

definition kahn_inv :: "ProductComponent list \<Rightarrow> error + kahn_state \<Rightarrow> bool" where
  "kahn_inv cs s =
     (case s of
        Inl e \<Rightarrow> False
      | Inr (d, q, out) \<Rightarrow>
          distinct (map c_id out @ q)
          \<and> set (map c_id out @ q) \<subseteq> c_id ` set cs
          \<and> set out \<subseteq> set cs
          \<and> (\<forall>x. d x = in_count (prereq_edges cs) (map c_id out) x)
          \<and> (\<forall>x\<in>c_id ` set cs. (x \<in> set (map c_id out @ q)) = (d x = 0))
          \<and> (\<forall>i<length out. \<forall>p. (p, c_id (out ! i)) \<in> set (prereq_edges cs)
                \<longrightarrow> p \<in> c_id ` set (take i out)))"

lemma count_list_successors:
  "count_list (map snd (filter (\<lambda>e. fst e = cid) es)) x
     = length (filter (\<lambda>e. fst e = cid \<and> snd e = x) es)"
  by (induction es) auto

lemma in_count_snoc:
  "cid \<notin> set seen \<Longrightarrow>
     in_count es (seen @ [cid]) x
       = in_count es seen x - int (length (filter (\<lambda>e. fst e = cid \<and> snd e = x) es))"
  unfolding in_count_def by (induction es) auto

lemma in_count_zero:
  "in_count es seen x = 0 \<Longrightarrow> (p, x) \<in> set es \<Longrightarrow> p \<in> set seen"
  unfolding in_count_def by (auto simp: filter_empty_conv)

lemma in_count_pos:
  "in_count es seen x \<noteq> 0 \<Longrightarrow> \<exists>p. (p, x) \<in> set es \<and> p \<notin> set seen"
  unfolding in_count_def by (auto simp: filter_empty_conv)

lemma snd_prereq_edges: "e \<in> set (prereq_edges cs) \<Longrightarrow> snd e \<in> c_id ` set cs"
  by (auto simp: set_prereq_edges)

lemma kahn_step_inv:
  assumes g: "\<forall>p. g p = map snd (filter (\<lambda>e. fst e = p) (prereq_edges cs))"
    and inv: "kahn_inv cs s" and cond: "kahn_cond s"
  shows "kahn_inv cs (kahn_step g (by_id cs) s)"
proof -
  define es where "es = prereq_edges cs"
  from inv obtain d q out where s: "s = Inr (d, q, out)"
    by (cases s) (auto simp: kahn_inv_def)
  from cond s obtain cid q0 where q: "q = cid # q0"
    by (cases q) (auto simp: kahn_cond_def)
  define oi where "oi = map c_id out"
  have I: "distinct (map c_id out @ cid # q0)
          \<and> set (map c_id out @ cid # q0) \<subseteq> c_id ` set cs
          \<and> set out \<subseteq> set cs
          \<and> (\<forall>x. d x = in_count (prereq_edges cs) (map c_id out) x)
          \<and> (\<forall>x\<in>c_id ` set cs. (x \<in> set (map c_id out @ cid # q0)) = (d x = 0))
          \<and> (\<forall>i<length out. \<forall>p. (p, c_id (out ! i)) \<in> set (prereq_edges cs)
                \<longrightarrow> p \<in> c_id ` set (take i out))"
    using inv unfolding kahn_inv_def s q sum.case prod.case .
  have dist: "distinct (oi @ cid # q0)"
    and sub: "set (oi @ cid # q0) \<subseteq> c_id ` set cs"
    and outsub: "set out \<subseteq> set cs"
    and deg: "\<forall>x. d x = in_count es oi x"
    and zero: "\<forall>x\<in>c_id ` set cs. (x \<in> set (oi @ cid # q0)) = (d x = 0)"
    and legal: "\<forall>i<length out. \<forall>p. (p, c_id (out ! i)) \<in> set es \<longrightarrow> p \<in> c_id ` set (take i out)"
    unfolding oi_def es_def using I by blast+
  from sub have cid_in: "cid \<in> c_id ` set cs" by simp
  then obtain c where c: "by_id cs cid = Some c"
    using by_id_None_iff[of cs cid] by (cases "by_id cs cid") auto
  then have c_in: "c \<in> set cs" and c_id: "c_id c = cid"
    using by_id_SomeD by blast+
  define ns where "ns = g cid"
  have cnt: "\<And>x. int (count_list ns x) = int (length (filter (\<lambda>e. fst e = cid \<and> snd e = x) es))"
    using g by (simp add: ns_def es_def count_list_successors)
  have cid_new: "cid \<notin> set oi" using dist by auto
  have snoc: "\<And>x. in_count es (oi @ [cid]) x = d x - int (count_list ns x)"
    using in_count_snoc[OF cid_new, of es] deg cnt by simp
  have nonneg: "\<And>x. 0 \<le> in_count es (oi @ [cid]) x"
    by (simp add: in_count_def)
  have pre: "\<forall>x\<in>set ns. int (count_list ns x) \<le> d x"
    using snoc nonneg by (metis diff_ge_0_iff_ge)
  define dq where "dq = fold relax ns (d, q0)"
  have d': "\<And>x. fst dq x = in_count es (oi @ [cid]) x"
    by (simp add: dq_def fold_relax_fst snoc)
  from fold_relax_snd[OF pre, of q0] obtain new where
    new: "snd dq = q0 @ new" "distinct new"
         "set new = {x \<in> set ns. d x = int (count_list ns x)}"
    unfolding dq_def by blast
  have ns_ids: "set ns \<subseteq> c_id ` set cs"
    using g snd_prereq_edges by (auto simp: ns_def)
  have in_ns: "\<And>x. x \<in> set ns \<Longrightarrow> 1 \<le> int (count_list ns x)"
    by (metis count_list_0_iff int_one_le_iff_zero_less neq0_conv of_nat_0_less_iff)
  have new_fresh: "\<And>x. x \<in> set new \<Longrightarrow> x \<notin> set (oi @ cid # q0)"
  proof -
    fix x assume x: "x \<in> set new"
    then have "x \<in> set ns" "d x = int (count_list ns x)" using new(3) by auto
    then have "d x \<noteq> 0" "x \<in> c_id ` set cs" using in_ns[of x] ns_ids by auto
    then show "x \<notin> set (oi @ cid # q0)" using zero by blast
  qed
  have step: "kahn_step g (by_id cs) s = Inr (fst dq, snd dq, out @ [c])"
    by (simp add: kahn_step_def s q c dq_def ns_def Let_def)
  have map_out: "map c_id (out @ [c]) = oi @ [cid]" by (simp add: oi_def c_id)
  have 1: "distinct ((oi @ [cid]) @ q0 @ new)"
    using dist new(2) new_fresh by auto
  have 2: "set ((oi @ [cid]) @ q0 @ new) \<subseteq> c_id ` set cs"
    using sub new(3) ns_ids by auto
  have 3: "set (out @ [c]) \<subseteq> set cs" using outsub c_in by simp
  have 5: "\<forall>x\<in>c_id ` set cs. (x \<in> set ((oi @ [cid]) @ q0 @ new)) = (fst dq x = 0)"
  proof
    fix x assume xin: "x \<in> c_id ` set cs"
    show "(x \<in> set ((oi @ [cid]) @ q0 @ new)) = (fst dq x = 0)"
    proof
      assume "x \<in> set ((oi @ [cid]) @ q0 @ new)"
      then consider "x \<in> set (oi @ cid # q0)" | "x \<in> set new" by auto
      then show "fst dq x = 0"
      proof cases
        case 1
        then have dx: "d x = 0" using zero xin by blast
        have "x \<notin> set ns"
        proof
          assume "x \<in> set ns"
          then show False using in_ns[of x] pre dx by force
        qed
        then have "count_list ns x = 0" by simp
        then show ?thesis using dx by (simp add: d' snoc)
      next
        case 2
        then show ?thesis using new(3) by (simp add: d' snoc)
      qed
    next
      assume z: "fst dq x = 0"
      then have eq: "d x = int (count_list ns x)" by (simp add: d' snoc)
      show "x \<in> set ((oi @ [cid]) @ q0 @ new)"
      proof (cases "x \<in> set ns")
        case True
        then show ?thesis using eq new(3) by simp
      next
        case False
        then have "d x = 0" using eq by simp
        then have "x \<in> set (oi @ cid # q0)" using zero xin by blast
        then show ?thesis by auto
      qed
    qed
  qed
  have 6: "\<forall>i<length (out @ [c]). \<forall>p. (p, c_id ((out @ [c]) ! i)) \<in> set es
             \<longrightarrow> p \<in> c_id ` set (take i (out @ [c]))"
  proof (intro allI impI)
    fix i p assume i: "i < length (out @ [c])" and e: "(p, c_id ((out @ [c]) ! i)) \<in> set es"
    show "p \<in> c_id ` set (take i (out @ [c]))"
    proof (cases "i < length out")
      case True
      with e legal show ?thesis by (simp add: nth_append)
    next
      case False
      with i have il: "i = length out" by simp
      with e have "(p, cid) \<in> set es" by (simp add: c_id)
      moreover have "d cid = 0" using zero cid_in by auto
      ultimately have "p \<in> set oi" using in_count_zero[of es oi cid p] deg by simp
      then show ?thesis by (simp add: il oi_def)
    qed
  qed
  have 4: "\<forall>x. fst dq x = in_count es (oi @ [cid]) x" using d' by blast
  show ?thesis
    using 1 2 3 4 5 6
    unfolding step kahn_inv_def sum.case prod.case map_out new(1) es_def
    by blast
qed

subsection \<open>The queue loop ends, and what it returns\<close>

lemma kahn_init_inv:
  assumes "add_edges (by_id cs) (prereq_edges cs) (\<lambda>_. [], \<lambda>_. 0) = Inr (g, d)"
  shows "kahn_inv cs (Inr (d, filter (\<lambda>cid. d cid = 0) (dict_keys (map c_id cs)), []))"
    and "\<forall>p. g p = map snd (filter (\<lambda>e. fst e = p) (prereq_edges cs))"
    and "\<forall>e\<in>set (prereq_edges cs). fst e \<in> c_id ` set cs"
proof -
  from add_edges_Inr[OF assms] have
    known: "\<forall>e\<in>set (prereq_edges cs). by_id cs (fst e) \<noteq> None" and
    g: "\<forall>p. g p = [] @ map snd (filter (\<lambda>e. fst e = p) (prereq_edges cs))" and
    d: "\<forall>x. d x = 0 + int (length (filter (\<lambda>e. snd e = x) (prereq_edges cs)))"
    by blast+
  from g show "\<forall>p. g p = map snd (filter (\<lambda>e. fst e = p) (prereq_edges cs))" by simp
  from known show "\<forall>e\<in>set (prereq_edges cs). fst e \<in> c_id ` set cs"
    by (simp add: by_id_None_iff)
  have deg: "\<forall>x. d x = in_count (prereq_edges cs) (map c_id []) x"
    using d by (simp add: in_count_def)
  show "kahn_inv cs (Inr (d, filter (\<lambda>cid. d cid = 0) (dict_keys (map c_id cs)), []))"
    unfolding kahn_inv_def sum.case prod.case using deg by auto
qed

lemma kahn_inv_length:
  assumes "kahn_inv cs (Inr (d, q, out))"
  shows "length out + length q \<le> card (c_id ` set cs)"
proof -
  from assms have dist: "distinct (map c_id out @ q)"
    and sub: "set (map c_id out @ q) \<subseteq> c_id ` set cs"
    unfolding kahn_inv_def sum.case prod.case by blast+
  have "length (map c_id out @ q) = card (set (map c_id out @ q))"
    using dist by (rule distinct_card[symmetric])
  also have "\<dots> \<le> card (c_id ` set cs)"
    using sub by (intro card_mono) auto
  finally show ?thesis by simp
qed

lemma kahn_step_shape:
  assumes "kahn_inv cs s" "kahn_cond s"
  shows "\<exists>d q out d' q' c. s = Inr (d, q, out) \<and> q \<noteq> []
            \<and> kahn_step g (by_id cs) s = Inr (d', q', out @ [c])"
proof -
  from assms(1) obtain d q out where s: "s = Inr (d, q, out)"
    by (cases s) (auto simp: kahn_inv_def)
  from assms(2) s obtain cid q0 where q: "q = cid # q0"
    by (cases q) (auto simp: kahn_cond_def)
  from assms(1) have "set (map c_id out @ q) \<subseteq> c_id ` set cs"
    unfolding s kahn_inv_def sum.case prod.case by blast
  then have "cid \<in> c_id ` set cs" using q by simp
  then obtain c where c: "by_id cs cid = Some c"
    using by_id_None_iff[of cs cid] by (cases "by_id cs cid") auto
  show ?thesis
    by (simp add: s q c kahn_step_def Let_def)
qed

definition kahn_measure :: "ProductComponent list \<Rightarrow> error + kahn_state \<Rightarrow> nat" where
  "kahn_measure cs s =
     (case s of Inl e \<Rightarrow> 0 | Inr (d, q, out) \<Rightarrow> card (c_id ` set cs) - length out)"

lemma kahn_loop_terminates:
  assumes g: "\<forall>p. g p = map snd (filter (\<lambda>e. fst e = p) (prereq_edges cs))"
    and inv: "kahn_inv cs s0"
  shows "\<exists>t. while_option kahn_cond (kahn_step g (by_id cs)) s0 = Some t"
proof (rule measure_while_option_Some[where P = "kahn_inv cs" and f = "kahn_measure cs"])
  show "kahn_inv cs s0" by (rule inv)
next
  fix s assume s: "kahn_inv cs s" "kahn_cond s"
  have inv': "kahn_inv cs (kahn_step g (by_id cs) s)"
    by (rule kahn_step_inv[OF g s])
  from kahn_step_shape[OF s, of g] obtain d q out d' q' c where
    sh: "s = Inr (d, q, out)" "kahn_step g (by_id cs) s = Inr (d', q', out @ [c])"
    by blast
  from inv' sh(2) have "length (out @ [c]) + length q' \<le> card (c_id ` set cs)"
    using kahn_inv_length by metis
  moreover have "kahn_measure cs (kahn_step g (by_id cs) s)
      = card (c_id ` set cs) - length (out @ [c])"
    by (simp only: sh(2) kahn_measure_def sum.case prod.case)
  moreover have "kahn_measure cs s = card (c_id ` set cs) - length out"
    by (simp only: sh(1) kahn_measure_def sum.case prod.case)
  ultimately have "kahn_measure cs (kahn_step g (by_id cs) s) < kahn_measure cs s"
    by simp
  with inv' show "kahn_inv cs (kahn_step g (by_id cs) s)
      \<and> kahn_measure cs (kahn_step g (by_id cs) s) < kahn_measure cs s" by blast
qed

lemma kahn_loop_result:
  assumes g: "\<forall>p. g p = map snd (filter (\<lambda>e. fst e = p) (prereq_edges cs))"
    and inv: "kahn_inv cs s0"
    and res: "while_option kahn_cond (kahn_step g (by_id cs)) s0 = Some t"
  shows "\<exists>d out. t = Inr (d, [], out) \<and> kahn_inv cs t"
proof -
  have "kahn_inv cs t"
    by (rule while_option_rule[where P = "kahn_inv cs", OF _ res inv])
       (rule kahn_step_inv[OF g])
  moreover have "\<not> kahn_cond t" by (rule while_option_stop[OF res])
  ultimately show ?thesis
    by (cases t) (auto simp: kahn_inv_def kahn_cond_def)
qed

subsection \<open>The final state: all components, none twice, in a legal order\<close>

lemma kahn_final_length:
  assumes "kahn_inv cs (Inr (d, [], out))"
  shows "length out = length cs
           \<longleftrightarrow> distinct (map c_id cs) \<and> c_id ` set out = c_id ` set cs"
proof -
  from assms have dist: "distinct (map c_id out)"
    and sub: "c_id ` set out \<subseteq> c_id ` set cs"
    unfolding kahn_inv_def sum.case prod.case by auto
  have lo: "length out = card (c_id ` set out)"
    using distinct_card[OF dist] by simp
  have le1: "card (c_id ` set out) \<le> card (c_id ` set cs)"
    using sub by (intro card_mono) auto
  have le2: "card (c_id ` set cs) \<le> length cs"
    using card_length[of "map c_id cs"] by simp
  show ?thesis
  proof
    assume eq: "length out = length cs"
    with lo le1 le2 have c1: "card (c_id ` set out) = card (c_id ` set cs)"
      and c2: "card (c_id ` set cs) = length cs" by linarith+
    from c2 have "card (set (map c_id cs)) = length (map c_id cs)" by simp
    then have "distinct (map c_id cs)" by (rule card_distinct)
    moreover have "c_id ` set out = c_id ` set cs"
      using sub c1 by (intro card_subset_eq) auto
    ultimately show "distinct (map c_id cs) \<and> c_id ` set out = c_id ` set cs" by blast
  next
    assume r: "distinct (map c_id cs) \<and> c_id ` set out = c_id ` set cs"
    then have "card (c_id ` set cs) = length cs"
      using distinct_card[of "map c_id cs"] by simp
    with r lo show "length out = length cs" by simp
  qed
qed

lemma distinct_pos:
  assumes "distinct xs" "i < length xs"
  shows "length (takeWhile (\<lambda>y. y \<noteq> xs ! i) xs) = i"
proof -
  have "takeWhile (\<lambda>y. y \<noteq> xs ! i) xs = take i xs"
  proof (rule takeWhile_eq_take_P_nth)
    fix k assume "k < i" "k < length xs"
    then show "xs ! k \<noteq> xs ! i"
      using assms by (simp add: nth_eq_iff_index_eq)
  next
    show "\<not> xs ! i \<noteq> xs ! i" by simp
  qed
  then show ?thesis using assms(2) by simp
qed

lemma kahn_final_acyclic:
  assumes inv: "kahn_inv cs (Inr (d, [], out))"
    and known: "\<forall>e\<in>set (prereq_edges cs). fst e \<in> c_id ` set cs"
  shows "c_id ` set out = c_id ` set cs \<longleftrightarrow> acyclic (set (prereq_edges cs))"
proof -
  define es where "es = prereq_edges cs"
  define oi where "oi = map c_id out"
  have I: "distinct (map c_id out @ [])
          \<and> set (map c_id out @ []) \<subseteq> c_id ` set cs
          \<and> set out \<subseteq> set cs
          \<and> (\<forall>x. d x = in_count (prereq_edges cs) (map c_id out) x)
          \<and> (\<forall>x\<in>c_id ` set cs. (x \<in> set (map c_id out @ [])) = (d x = 0))
          \<and> (\<forall>i<length out. \<forall>p. (p, c_id (out ! i)) \<in> set (prereq_edges cs)
                \<longrightarrow> p \<in> c_id ` set (take i out))"
    using inv unfolding kahn_inv_def sum.case prod.case .
  have dist: "distinct oi" and sub: "set oi \<subseteq> c_id ` set cs"
    and deg: "\<forall>x. d x = in_count es oi x"
    and zero: "\<forall>x\<in>c_id ` set cs. (x \<in> set oi) = (d x = 0)"
    using I unfolding oi_def es_def by simp_all
  have legal: "\<And>i p. i < length oi \<Longrightarrow> (p, oi ! i) \<in> set es \<Longrightarrow> p \<in> set (take i oi)"
  proof -
    fix i p assume i: "i < length oi" and e: "(p, oi ! i) \<in> set es"
    from I have "\<forall>i<length out. \<forall>p. (p, c_id (out ! i)) \<in> set (prereq_edges cs)
                \<longrightarrow> p \<in> c_id ` set (take i out)" by blast
    with i e have "p \<in> c_id ` set (take i out)" by (simp add: oi_def es_def)
    then show "p \<in> set (take i oi)" by (simp add: oi_def take_map)
  qed
  show ?thesis
  proof
    assume all: "c_id ` set out = c_id ` set cs"
    define pos where "pos = (\<lambda>x. length (takeWhile (\<lambda>y. y \<noteq> x) oi))"
    have "set es \<subseteq> measure pos"
    proof
      fix e assume e: "e \<in> set es"
      obtain p x where px: "e = (p, x)" by (cases e)
      from e px have "x \<in> c_id ` set cs"
        using snd_prereq_edges[of e cs] by (simp add: es_def)
      with all have "x \<in> set oi" by (simp add: oi_def)
      then obtain i where i: "i < length oi" "oi ! i = x"
        by (auto simp: in_set_conv_nth)
      from legal[OF i(1)] e px i(2) have "p \<in> set (take i oi)" by simp
      then obtain j where j: "j < i" "oi ! j = p"
        using i(1) by (auto simp: in_set_conv_nth)
      have "pos p = j" using distinct_pos[OF dist, of j] j i(1) by (simp add: pos_def)
      moreover have "pos x = i" using distinct_pos[OF dist i(1)] i(2) by (simp add: pos_def)
      ultimately show "e \<in> measure pos" using j(1) px by simp
    qed
    then have "wf (set es)" by (rule wf_subset[OF wf_measure])
    then show "acyclic (set (prereq_edges cs))" unfolding es_def by (rule wf_acyclic)
  next
    assume ac: "acyclic (set (prereq_edges cs))"
    have wf: "wf (set es)" unfolding es_def by (rule finite_acyclic_wf[OF _ ac]) simp
    show "c_id ` set out = c_id ` set cs"
    proof (rule ccontr)
      assume ne: "c_id ` set out \<noteq> c_id ` set cs"
      define U where "U = c_id ` set cs - set oi"
      from ne sub have "U \<noteq> {}" by (auto simp: U_def oi_def)
      then obtain x0 where "x0 \<in> U" by blast
      from wfE_min[OF wf this] obtain z where
        z: "z \<in> U" "\<And>y. (y, z) \<in> set es \<Longrightarrow> y \<notin> U" by blast
      from z(1) have "d z \<noteq> 0" using zero by (auto simp: U_def)
      then have "in_count es oi z \<noteq> 0" using deg by simp
      from in_count_pos[OF this] obtain p where p: "(p, z) \<in> set es" "p \<notin> set oi" by blast
      from p(1) known have "p \<in> c_id ` set cs" by (auto simp: es_def)
      with p(2) have "p \<in> U" by (simp add: U_def)
      with z(2)[OF p(1)] show False by blast
    qed
  qed
qed

subsection \<open>The topological order, in full\<close>

text \<open>The three ways a component list is refused.\<close>

definition unknown_prerequisite :: "ProductComponent list \<Rightarrow> bool" where
  "unknown_prerequisite cs =
     (\<exists>c \<in> set cs. \<exists>p \<in> set (prerequisites c). p \<notin> c_id ` set cs)"

definition duplicate_ids :: "ProductComponent list \<Rightarrow> bool" where
  "duplicate_ids cs = (\<not> distinct (map c_id cs))"

text \<open>The prerequisite graph has an edge from each prerequisite to the component that
  lists it; it is cyclic when some id reaches itself along edges.\<close>

definition cyclic_prerequisites :: "ProductComponent list \<Rightarrow> bool" where
  "cyclic_prerequisites cs = (\<not> acyclic (set (prereq_edges cs)))"

definition invalid_components :: "ProductComponent list \<Rightarrow> bool" where
  "invalid_components cs =
     (unknown_prerequisite cs \<or> duplicate_ids cs \<or> cyclic_prerequisites cs)"

text \<open>A list of components is in a legal order when every prerequisite of the component
  at a position is the id of a component at an earlier position.\<close>

definition topologically_legal :: "ProductComponent list \<Rightarrow> bool" where
  "topologically_legal xs =
     (\<forall>i<length xs. \<forall>p\<in>set (prerequisites (xs ! i)). p \<in> c_id ` set (take i xs))"

lemma unknown_prerequisite_edges:
  "unknown_prerequisite cs \<longleftrightarrow> (\<exists>e\<in>set (prereq_edges cs). fst e \<notin> c_id ` set cs)"
  unfolding unknown_prerequisite_def set_prereq_edges by force

lemma topological_order_spec:
  "\<exists>r. topological_order cs = Some r \<and>
       (case r of
          Inl e \<Rightarrow> (\<exists>msg. e = ValueError msg) \<and> invalid_components cs
        | Inr out \<Rightarrow> \<not> invalid_components cs \<and> set out = set cs
                     \<and> length out = length cs \<and> distinct (map c_id out)
                     \<and> topologically_legal out)"
proof (cases "add_edges (by_id cs) (prereq_edges cs) (\<lambda>_. [], \<lambda>_. 0)")
  case (Inl err)
  from add_edges_Inl[OF Inl] have "\<exists>msg. err = ValueError msg"
    and "\<exists>e\<in>set (prereq_edges cs). by_id cs (fst e) = None" by blast+
  then have "unknown_prerequisite cs"
    by (simp add: unknown_prerequisite_edges by_id_None_iff)
  then have "invalid_components cs" by (simp add: invalid_components_def)
  moreover have "topological_order cs = Some (Inl err)"
    by (simp add: topological_order_def Inl)
  ultimately show ?thesis using \<open>\<exists>msg. err = ValueError msg\<close> by simp
next
  case (Inr gd)
  obtain g d where gd: "gd = (g, d)" by (cases gd)
  define s0 :: "error + kahn_state"
    where "s0 = Inr (d, filter (\<lambda>cid. d cid = 0) (dict_keys (map c_id cs)), [])"
  from Inr gd have ae: "add_edges (by_id cs) (prereq_edges cs) (\<lambda>_. [], \<lambda>_. 0) = Inr (g, d)"
    by simp
  note init = kahn_init_inv[OF ae]
  have inv0: "kahn_inv cs s0" unfolding s0_def by (rule init(1))
  from kahn_loop_terminates[OF init(2) inv0] obtain t where
    t: "while_option kahn_cond (kahn_step g (by_id cs)) s0 = Some t" by blast
  from kahn_loop_result[OF init(2) inv0 t] obtain d' out where
    tt: "t = Inr (d', [], out)" and invt: "kahn_inv cs (Inr (d', [], out))" by blast
  have known: "\<not> unknown_prerequisite cs"
    using init(3) by (simp add: unknown_prerequisite_edges)
  have len: "length out = length cs
               \<longleftrightarrow> distinct (map c_id cs) \<and> c_id ` set out = c_id ` set cs"
    by (rule kahn_final_length[OF invt])
  have acy: "c_id ` set out = c_id ` set cs \<longleftrightarrow> acyclic (set (prereq_edges cs))"
    by (rule kahn_final_acyclic[OF invt init(3)])
  have res: "topological_order cs =
      (if length out \<noteq> length cs
       then Some (Inl (ValueError ''Circular dependency detected in prerequisites.''))
       else Some (Inr out))"
    using t by (simp add: topological_order_def ae s0_def tt)
  show ?thesis
  proof (cases "length out = length cs")
    case False
    with len acy have "invalid_components cs"
      by (auto simp: invalid_components_def duplicate_ids_def cyclic_prerequisites_def)
    with False res show ?thesis by simp
  next
    case True
    with len acy have dist: "distinct (map c_id cs)" and img: "c_id ` set out = c_id ` set cs"
      and ac: "acyclic (set (prereq_edges cs))" by blast+
    have valid: "\<not> invalid_components cs"
      using known dist ac
      by (simp add: invalid_components_def duplicate_ids_def cyclic_prerequisites_def)
    have I: "distinct (map c_id out @ [])
          \<and> set (map c_id out @ []) \<subseteq> c_id ` set cs
          \<and> set out \<subseteq> set cs
          \<and> (\<forall>x. d' x = in_count (prereq_edges cs) (map c_id out) x)
          \<and> (\<forall>x\<in>c_id ` set cs. (x \<in> set (map c_id out @ [])) = (d' x = 0))
          \<and> (\<forall>i<length out. \<forall>p. (p, c_id (out ! i)) \<in> set (prereq_edges cs)
                \<longrightarrow> p \<in> c_id ` set (take i out))"
      using invt unfolding kahn_inv_def sum.case prod.case .
    then have osub: "set out \<subseteq> set cs" and odist: "distinct (map c_id out)" by simp_all
    have inj: "inj_on c_id (set cs)" using dist by (simp add: distinct_map)
    have "set cs \<subseteq> set out"
    proof
      fix c assume c: "c \<in> set cs"
      then have "c_id c \<in> c_id ` set out" using img by blast
      then obtain c' where c': "c' \<in> set out" "c_id c' = c_id c" by auto
      with osub have "c' \<in> set cs" by blast
      with inj c c'(2) have "c' = c" by (auto dest: inj_onD)
      with c'(1) show "c \<in> set out" by simp
    qed
    with osub have seteq: "set out = set cs" by blast
    have legal: "topologically_legal out"
      unfolding topologically_legal_def
    proof (intro allI impI ballI)
      fix i p assume i: "i < length out" and p: "p \<in> set (prerequisites (out ! i))"
      have "out ! i \<in> set cs" using i osub by (auto simp: subset_iff)
      with p have "(p, c_id (out ! i)) \<in> set (prereq_edges cs)"
        by (auto simp: set_prereq_edges)
      with I i show "p \<in> c_id ` set (take i out)" by blast
    qed
    from True res valid seteq odist legal show ?thesis by simp
  qed
qed

section \<open>The order the decoder scans\<close>

text \<open>Two components, the second with the first as its prerequisite, and the genome
  that ranks the second first.\<close>

definition ex_A :: ProductComponent where
  "ex_A = \<lparr>c_id = ''A'', c_name = ''A'', quantity = 1, cycle_time_sec = 3600,
           c_mold_id = ''D1'', c_color = ''red'', due_day = 1, lead_time_days = 0,
           prerequisites = [], status = ''pending''\<rparr>"

definition ex_B :: ProductComponent where
  "ex_B = \<lparr>c_id = ''B'', c_name = ''B'', quantity = 1, cycle_time_sec = 3600,
           c_mold_id = ''D1'', c_color = ''red'', due_day = 1, lead_time_days = 0,
           prerequisites = [''A''], status = ''pending''\<rparr>"

lemma ex_AB_topological_order: "topological_order [ex_A, ex_B] = Some (Inr [ex_A, ex_B])"
  by code_simp

lemma ex_AB_comp_order: "comp_order_of [''B'', ''A''] [ex_A, ex_B] = [ex_B, ex_A]"
  by code_simp

lemma ex_BA_not_legal: "\<not> topologically_legal [ex_B, ex_A]"
proof
  assume "topologically_legal [ex_B, ex_A]"
  then have "\<forall>i<length [ex_B, ex_A]. \<forall>p\<in>set (prerequisites ([ex_B, ex_A] ! i)).
               p \<in> c_id ` set (take i [ex_B, ex_A])"
    unfolding topologically_legal_def .
  then have "\<forall>p\<in>set (prerequisites ([ex_B, ex_A] ! 0)). p \<in> c_id ` set (take 0 [ex_B, ex_A])"
    by (rule allE[of _ 0]) simp
  then show False by (simp add: ex_B_def)
qed

lemma ex_AB_legal: "topologically_legal [ex_A, ex_B]"
  unfolding topologically_legal_def
proof (intro allI impI)
  fix i assume "i < length [ex_A, ex_B]"
  then have "i = 0 \<or> i = 1" by auto
  then show "\<forall>p\<in>set (prerequisites ([ex_A, ex_B] ! i)). p \<in> c_id ` set (take i [ex_A, ex_B])"
    by (auto simp: ex_A_def ex_B_def)
qed

lemma topological_order_Inr:
  assumes "topological_order cs = Some (Inr topo)"
  shows "\<not> invalid_components cs" "set topo = set cs" "length topo = length cs"
    "distinct (map c_id topo)" "topologically_legal topo"
  using topological_order_spec[of cs] assms by auto

section \<open>The genomes of every generation are permutations\<close>

subsection \<open>Shuffling and the first population\<close>

lemma shuffle_from_mset: "i < length xs \<Longrightarrow> mset (fst (shuffle_from i xs r)) = mset xs"
proof (induction i arbitrary: xs r)
  case 0
  then show ?case by simp
next
  case (Suc i)
  define j where "j = fst (randbelow (Suc i + 1) r)"
  have j: "j < Suc i + 1" unfolding j_def by (rule randbelow_less) simp
  then have jl: "j < length xs" using Suc.prems by simp
  define ys where "ys = xs[Suc i := xs ! j, j := xs ! Suc i]"
  have m: "mset ys = mset xs" unfolding ys_def using Suc.prems jl by (simp add: mset_swap)
  have l: "i < length ys" using Suc.prems by (simp add: ys_def)
  have "fst (shuffle_from (Suc i) xs r) = fst (shuffle_from i ys (snd (randbelow (Suc i + 1) r)))"
    by (simp add: Let_def ys_def j_def)
  then show ?case using Suc.IH[OF l] m by simp
qed

lemma shuffle_mset: "mset (fst (shuffle xs r)) = mset xs"
proof (cases xs)
  case Nil
  then show ?thesis by (simp add: shuffle_def)
next
  case (Cons x xs')
  then have "length xs - 1 < length xs" by simp
  then show ?thesis unfolding shuffle_def by (rule shuffle_from_mset)
qed

lemma init_population_inv:
  "length (fst (init_population k cs r)) = k
   \<and> (\<forall>g\<in>set (fst (init_population k cs r)). mset g = mset (map c_id cs))"
  by (induction k arbitrary: r) (simp_all add: Let_def random_genome_def shuffle_mset)

subsection \<open>One generation\<close>

lemma score_population_Inr:
  "score_population dec cs pop = Some (Inr scored) \<Longrightarrow>
     map snd scored = pop \<and> (\<forall>g\<in>set pop. \<exists>res. dec g = Some (Inr res))"
proof (induction pop arbitrary: scored)
  case Nil
  then show ?case by simp
next
  case (Cons g gs)
  from Cons.prems obtain res where d: "dec g = Some (Inr res)"
    by (auto simp: bind_r_def split: option.splits sum.splits)
  from Cons.prems d obtain score where f: "fitness_v2 (fst res) (snd res) cs = Inr score"
    by (auto simp: bind_r_def split: option.splits sum.splits)
  from Cons.prems d f obtain rest where r: "score_population dec cs gs = Some (Inr rest)"
    and s: "scored = (score, g) # rest"
    by (auto simp: bind_r_def split: option.splits sum.splits)
  from Cons.IH[OF r] d s show ?case by auto
qed

lemma set_sort_scored: "set (sort_scored scored) = set scored"
  by (simp add: sort_scored_def)

lemma length_sort_scored: "length (sort_scored scored) = length scored"
  by (simp add: sort_scored_def)

lemma tournament_fill_inv:
  assumes "2 \<le> pop_size" "length scored = pop_size"
  shows "set (fst (tournament_fill pop_size scored new_pop r)) \<subseteq> set new_pop \<union> snd ` set scored
         \<and> length (fst (tournament_fill pop_size scored new_pop r)) = max pop_size (length new_pop)
         \<and> take (length new_pop) (fst (tournament_fill pop_size scored new_pop r)) = new_pop"
  using assms
proof (induction pop_size scored new_pop r rule: tournament_fill.induct)
  case (1 pop_size scored new_pop r)
  show ?case
  proof (cases "length new_pop < pop_size")
    case False
    then show ?thesis by (simp add: tournament_fill.simps[of pop_size scored new_pop r])
  next
    case True
    define i where "i = fst (fst (sample2 pop_size r))"
    define j where "j = snd (fst (sample2 pop_size r))"
    define parent where "parent = (if fl_less (fst (scored ! j)) (fst (scored ! i))
                       then snd (scored ! i) else snd (scored ! j))"
    have ij: "i < length scored" "j < length scored"
      using sample2_bounds(1,2)[OF "1.prems"(1), of r] "1.prems"(2) by (simp_all add: i_def j_def)
    then have p: "parent \<in> snd ` set scored" unfolding parent_def by auto
    have e: "tournament_fill pop_size scored new_pop r
        = tournament_fill pop_size scored (new_pop @ [parent]) (snd (sample2 pop_size r))"
      using True
      by (simp add: tournament_fill.simps[of pop_size scored new_pop r] Let_def i_def j_def parent_def)
    have ih: "set (fst (tournament_fill pop_size scored (new_pop @ [parent]) (snd (sample2 pop_size r))))
         \<subseteq> set (new_pop @ [parent]) \<union> snd ` set scored
       \<and> length (fst (tournament_fill pop_size scored (new_pop @ [parent]) (snd (sample2 pop_size r))))
           = max pop_size (length (new_pop @ [parent]))
       \<and> take (length (new_pop @ [parent]))
            (fst (tournament_fill pop_size scored (new_pop @ [parent]) (snd (sample2 pop_size r))))
           = new_pop @ [parent]"
      using "1.IH"[OF True refl i_def j_def parent_def "1.prems"] .
    have t: "take (length new_pop)
            (fst (tournament_fill pop_size scored (new_pop @ [parent]) (snd (sample2 pop_size r))))
           = new_pop"
    proof -
      have "take (length new_pop) (take (length (new_pop @ [parent]))
            (fst (tournament_fill pop_size scored (new_pop @ [parent]) (snd (sample2 pop_size r)))))
           = take (length new_pop) (new_pop @ [parent])"
        using ih by simp
      then show ?thesis by (simp add: min_def)
    qed
    show ?thesis unfolding e using ih p True t by auto
  qed
qed

lemma elite_k_le: "2 \<le> pop_size \<Longrightarrow> elite_k_of pop_size \<le> pop_size"
  by (simp add: elite_k_of_def)

lemma parent_pool_inv:
  assumes "length scored = pop_size"
  shows "set (fst (parent_pool pop_size scored r)) \<subseteq> snd ` set scored"
    "length (fst (parent_pool pop_size scored r)) = pop_size"
    "take (elite_k_of pop_size) (fst (parent_pool pop_size scored r))
       = map snd (take (elite_k_of pop_size) scored)"
proof -
  define elite where "elite = map snd (take (elite_k_of pop_size) scored)"
  have se: "set elite \<subseteq> snd ` set scored"
    unfolding elite_def using set_take_subset[of "elite_k_of pop_size" scored] by auto
  have "set (fst (parent_pool pop_size scored r)) \<subseteq> snd ` set scored
     \<and> length (fst (parent_pool pop_size scored r)) = pop_size
     \<and> take (elite_k_of pop_size) (fst (parent_pool pop_size scored r)) = elite"
  proof (cases "2 \<le> pop_size")
    case True
    have le: "length elite = elite_k_of pop_size"
      using elite_k_le[OF True] assms by (simp add: elite_def)
    from tournament_fill_inv[OF True assms, of elite r] se le elite_k_le[OF True]
    show ?thesis unfolding parent_pool_def elite_def[symmetric] by auto
  next
    case False
    then have le: "length elite = pop_size" using assms by (simp add: elite_def elite_k_of_def)
    then have "tournament_fill pop_size scored elite r = (elite, r)"
      by (simp add: tournament_fill.simps[of pop_size scored elite r])
    then show ?thesis unfolding parent_pool_def elite_def[symmetric] using se le False
      by (simp add: elite_k_of_def)
  qed
  then show "set (fst (parent_pool pop_size scored r)) \<subseteq> snd ` set scored"
    "length (fst (parent_pool pop_size scored r)) = pop_size"
    "take (elite_k_of pop_size) (fst (parent_pool pop_size scored r))
       = map snd (take (elite_k_of pop_size) scored)"
    unfolding elite_def by blast+
qed

lemma breed_inv:
  assumes "length new_pop = pop_size" "\<forall>g\<in>set new_pop. mset g = mset ids" "distinct ids"
  shows "(\<forall>g\<in>set (fst (breed i pop_size new_pop r)). mset g = mset ids)
         \<and> length (fst (breed i pop_size new_pop r)) = pop_size - i"
  using assms
proof (induction i pop_size new_pop r rule: breed.induct)
  case (1 i pop_size new_pop r)
  show ?case
  proof (cases "i < pop_size")
    case False
    then show ?thesis by (simp add: breed.simps[of i pop_size new_pop r])
  next
    case True
    show ?thesis
    proof (cases "i + 1 \<ge> pop_size")
      case last: True
      have "new_pop ! i \<in> set new_pop" using True "1.prems"(1) by simp
      then show ?thesis using True last "1.prems"(2)
        by (simp add: breed.simps[of i pop_size new_pop r])
    next
      case more: False
      define p1 where "p1 = new_pop ! i"
      define p2 where "p2 = new_pop ! (i + 1)"
      define c1 where "c1 = crossover_ox p1 p2 r"
      define c2 where "c2 = crossover_ox p2 p1 (snd c1)"
      define rest where "rest = breed (i + 2) pop_size new_pop (snd c2)"
      have "p1 \<in> set new_pop" "p2 \<in> set new_pop"
        using more "1.prems"(1) by (simp_all add: p1_def p2_def)
      then have m: "mset p1 = mset ids" "mset p2 = mset ids" using "1.prems"(2) by blast+
      then have d: "distinct p1" "distinct p2"
        using "1.prems"(3) by (metis mset_eq_imp_distinct_iff)+
      have s: "set p1 = set p2" using m by (metis mset_eq_setD)
      have m1: "mset (fst c1) = mset ids"
        unfolding c1_def using crossover_ox_mset[OF d s] m by simp
      have m2: "mset (fst c2) = mset ids"
        unfolding c2_def using crossover_ox_mset[OF d(2) d(1) s[symmetric]] m by simp
      have ih: "(\<forall>g\<in>set (fst rest). mset g = mset ids) \<and> length (fst rest) = pop_size - (i + 2)"
        unfolding rest_def c2_def c1_def p1_def p2_def
        using "1.IH"[OF True more refl refl "1.prems"] by (simp add: p1_def p2_def)
      have e: "fst (breed i pop_size new_pop r) = fst c1 # fst c2 # fst rest"
        using True more
        by (simp add: breed.simps[of i pop_size new_pop r] Let_def rest_def c2_def c1_def
            p1_def p2_def)
      show ?thesis unfolding e using m1 m2 ih more by auto
    qed
  qed
qed

lemma mutate_all_inv:
  assumes "\<forall>g\<in>set cs. mset g = m"
  shows "(\<forall>g\<in>set (fst (mutate_all rate cs r)). mset g = m)
         \<and> length (fst (mutate_all rate cs r)) = length cs"
  using assms
  by (induction cs arbitrary: r) (simp_all add: Let_def mutate_swap_mset)

text \<open>A decode that returns has sorted the components, so their ids are distinct.\<close>

lemma decode_v2_Inr_distinct:
  assumes "decode_v2 g components ms molds month_days mch cch = Some (Inr res)"
  shows "distinct (map c_id components)"
proof -
  from assms obtain topo where "topological_order components = Some (Inr topo)"
    by (auto simp: decode_v2_def split: option.splits sum.splits)
  from topological_order_Inr(1)[OF this] show ?thesis
    by (simp add: invalid_components_def duplicate_ids_def)
qed

text \<open>The invariant of the generations: the population has \<open>pop_size\<close> genomes, and they
  and the best genome so far are permutations of the component ids.\<close>

definition ga_inv :: "ProductComponent list \<Rightarrow> nat \<Rightarrow> ga_state \<Rightarrow> bool" where
  "ga_inv components pop_size s =
     (length (population s) = pop_size
      \<and> list_all (\<lambda>g. mset g = mset (map c_id components)) (population s)
      \<and> (case best_genome s of None \<Rightarrow> True | Some g \<Rightarrow> mset g = mset (map c_id components)))"

lemma ga_initial_inv: "ga_inv components pop_size (ga_initial_state components pop_size r)"
  using init_population_inv[of pop_size components r]
  by (simp add: ga_inv_def ga_initial_state_def Let_def list_all_iff)

lemma ga_generation_inv:
  assumes g: "ga_generation (\<lambda>g. decode_v2 g components ms molds month_days mch cch)
                components pop_size mutation_rate s = Some (Inr s')"
    and inv: "ga_inv components pop_size s"
  shows "ga_inv components pop_size s'"
proof -
  define dec where "dec = (\<lambda>g. decode_v2 g components ms molds month_days mch cch)"
  define ids where "ids = map c_id components"
  from g obtain scored0 where sc: "score_population dec components (population s) = Some (Inr scored0)"
    unfolding ga_generation_def dec_def[symmetric]
    by (auto simp: bind_r_def split: option.splits sum.splits)
  define scored where "scored = sort_scored scored0"
  from g sc obtain first others where fo': "sort_scored scored0 = first # others"
    unfolding ga_generation_def dec_def[symmetric]
    by (auto simp: bind_r_def Let_def split: list.splits)
  have fo: "scored = first # others" by (simp add: scored_def fo')
  define pool where "pool = parent_pool pop_size scored (rng_state s)"
  define children where "children = breed 0 pop_size (fst pool) (snd pool)"
  define mutated where "mutated = mutate_all mutation_rate (fst children) (snd children)"
  have s': "population s' = take pop_size (fst mutated)"
    "best_genome s' = (if (case best_score s of None \<Rightarrow> True | Some b \<Rightarrow> fl_less b (fst first))
                       then Some (snd first) else best_genome s)"
    using g sc unfolding ga_generation_def dec_def[symmetric]
    by (auto simp: bind_r_def Let_def pool_def children_def mutated_def scored_def fo')
  from score_population_Inr[OF sc] have ms: "map snd scored0 = population s"
    and dd: "\<forall>g\<in>set (population s). \<exists>res. dec g = Some (Inr res)" by blast+
  have ss: "snd ` set scored = set (population s)"
    using ms unfolding scored_def set_sort_scored by (metis set_map)
  have ls: "length scored = pop_size"
    using ms inv unfolding scored_def length_sort_scored ga_inv_def by (metis length_map)
  have pp: "\<forall>g\<in>set (population s). mset g = mset ids"
    using inv by (simp add: ga_inv_def list_all_iff ids_def)
  have "snd first \<in> set (population s)" using ss fo by force
  then have fm: "mset (snd first) = mset ids" and "\<exists>res. dec (snd first) = Some (Inr res)"
    using pp dd by blast+
  then have di: "distinct ids"
    unfolding dec_def ids_def using decode_v2_Inr_distinct by blast
  have pl: "\<forall>g\<in>set (fst pool). mset g = mset ids" "length (fst pool) = pop_size"
    using parent_pool_inv(1,2)[OF ls, of "rng_state s"] ss pp unfolding pool_def by blast+
  from breed_inv[OF pl(2) pl(1) di, of 0 "snd pool"]
  have ch: "\<forall>g\<in>set (fst children). mset g = mset ids" "length (fst children) = pop_size"
    unfolding children_def by simp_all
  from mutate_all_inv[OF ch(1), of mutation_rate "snd children"] ch(2)
  have mu: "\<forall>g\<in>set (fst mutated). mset g = mset ids" "length (fst mutated) = pop_size"
    unfolding mutated_def by simp_all
  have bg: "case best_genome s of None \<Rightarrow> True | Some g \<Rightarrow> mset g = mset ids"
    using inv unfolding ga_inv_def ids_def by blast
  show ?thesis
    unfolding ga_inv_def s' ids_def[symmetric] using mu fm bg
    by (simp add: list_all_iff)
qed

lemma ga_loop_inv:
  assumes "ga_loop (\<lambda>g. decode_v2 g components ms molds month_days mch cch)
                components pop_size mutation_rate n s = Some (Inr s')"
    and "ga_inv components pop_size s"
  shows "ga_inv components pop_size s'"
  using assms
proof (induction n arbitrary: s)
  case 0
  then show ?case by simp
next
  case (Suc n)
  from Suc.prems(1) obtain s1 where
    g: "ga_generation (\<lambda>g. decode_v2 g components ms molds month_days mch cch)
                components pop_size mutation_rate s = Some (Inr s1)"
    and l: "ga_loop (\<lambda>g. decode_v2 g components ms molds month_days mch cch)
                components pop_size mutation_rate n s1 = Some (Inr s')"
    by (auto simp: bind_r_def split: option.splits sum.splits)
  from Suc.IH[OF l ga_generation_inv[OF g Suc.prems(2)]] show ?case .
qed

section \<open>Generations: permutations and the elite\<close>

subsection \<open>A run of one generation\<close>

text \<open>Three components, no machine and no mould, one day, a population of two and no
  mutation. The draws \<open>2, 1\<close> leave the first genome as the id list, \<open>0, 0\<close> turn
  the second into \<open>B, C, A\<close>; both crossovers cut at positions 1 and 2.\<close>

definition ex_C :: ProductComponent where
  "ex_C = ex_A\<lparr>c_id := ''C'', c_name := ''C''\<rparr>"

definition ex_dec :: "string list \<Rightarrow> (error + Task list \<times> (string \<times> int) list) option" where
  "ex_dec = (\<lambda>g. decode_v2 g [ex_A, ex_B, ex_C] [] [] 1 0 0)"

definition ex_tape :: rng where
  "ex_tape = [2, 1, 0, 0, 1, 1, 1, 1, 0, 0]"

definition ex_s0 :: ga_state where
  "ex_s0 = \<lparr>population = [[''A'', ''B'', ''C''], [''B'', ''C'', ''A'']], best_score = None,
            best_genome = None, rng_state = [1, 1, 1, 1, 0, 0]\<rparr>"

definition ex_s1 :: ga_state where
  "ex_s1 = \<lparr>population = [[''C'', ''B'', ''A''], [''A'', ''C'', ''B'']],
            best_score = Some (Fin (- 3000000)), best_genome = Some [''A'', ''B'', ''C''],
            rng_state = []\<rparr>"

lemma ex_initial_state: "ga_initial_state [ex_A, ex_B, ex_C] 2 ex_tape = ex_s0"
  by code_simp

lemma ex_scores:
  "score_population ex_dec [ex_A, ex_B, ex_C] (population ex_s0)
     = Some (Inr [(Fin (- 3000000), [''A'', ''B'', ''C'']),
                  (Fin (- 3000000), [''B'', ''C'', ''A''])])"
  by code_simp

lemma ex_generation: "ga_generation ex_dec [ex_A, ex_B, ex_C] 2 0 ex_s0 = Some (Inr ex_s1)"
  by code_simp

lemma ex_loop:
  "ga_loop (\<lambda>g. decode_v2 g [ex_A, ex_B, ex_C] [] [] 1 0 0) [ex_A, ex_B, ex_C] 2 0 1
     (ga_initial_state [ex_A, ex_B, ex_C] 2 ex_tape) = Some (Inr ex_s1)"
  by code_simp

text \<open>
  Claim C10. The order crossover of two permutations of one set of ids is a permutation
  of that set; a swap mutation keeps the multiset of ids; and after any number of
  generations that the loop completes, the population has \<open>pop_size\<close> genomes, each a
  permutation of the component ids, as is the best genome so far.
\<close>

theorem ga_genomes_are_permutations:
  "(distinct p1 \<and> distinct p2 \<and> set p1 = set p2 \<longrightarrow>
      distinct (fst (crossover_ox p1 p2 r)) \<and> set (fst (crossover_ox p1 p2 r)) = set p1)
   \<and> mset (fst (mutate_swap genome r')) = mset genome
   \<and> (ga_loop (\<lambda>g. decode_v2 g components ms molds month_days mch cch) components pop_size
         mutation_rate n (ga_initial_state components pop_size r0) = Some (Inr s) \<longrightarrow>
       ga_inv components pop_size s)"
proof (intro conjI impI)
  assume a: "distinct p1 \<and> distinct p2 \<and> set p1 = set p2"
  then have m: "mset (fst (crossover_ox p1 p2 r)) = mset p1"
    using crossover_ox_mset by blast
  show "distinct (fst (crossover_ox p1 p2 r))"
    using m a by (metis mset_eq_imp_distinct_iff)
  show "set (fst (crossover_ox p1 p2 r)) = set p1"
    using m by (metis mset_eq_setD)
next
  show "mset (fst (mutate_swap genome r')) = mset genome" by (rule mutate_swap_mset)
next
  assume "ga_loop (\<lambda>g. decode_v2 g components ms molds month_days mch cch) components pop_size
         mutation_rate n (ga_initial_state components pop_size r0) = Some (Inr s)"
  then show "ga_inv components pop_size s"
    by (rule ga_loop_inv) (rule ga_initial_inv)
qed

theorem ga_genomes_are_permutations_witness:
  "distinct (fst (crossover_ox [''A'', ''B'', ''C''] [''B'', ''C'', ''A''] [1, 1]))
   \<and> set (fst (crossover_ox [''A'', ''B'', ''C''] [''B'', ''C'', ''A''] [1, 1]))
       = set [''A'', ''B'', ''C'']
   \<and> mset (fst (mutate_swap [''A'', ''B''] [0, 0])) = mset [''A'', ''B'']
   \<and> ga_inv [ex_A, ex_B, ex_C] 2 ex_s1"
proof -
  have d: "distinct [''A'', ''B'', ''C''] \<and> distinct [''B'', ''C'', ''A'']
           \<and> set [''A'', ''B'', ''C''] = set [''B'', ''C'', ''A'']"
    by auto
  from ga_genomes_are_permutations[of "[''A'', ''B'', ''C'']" "[''B'', ''C'', ''A'']" "[1, 1]"
      "[''A'', ''B'']" "[0, 0]" "[ex_A, ex_B, ex_C]" "[]" "[]" 1 0 0 2 0 1 ex_tape ex_s1]
    d ex_loop
  show ?thesis by blast
qed

section \<open>Rounding to a double\<close>

lemma pow2i_eq: "pow2i k = 2 ^ nat k"
proof (induction k rule: pow2i.induct)
  case (1 k)
  show ?case
  proof (cases "k \<le> 0")
    case True
    then show ?thesis by (simp add: pow2i.simps[of k])
  next
    case False
    show ?thesis
    proof (cases "even k")
      case True
      then obtain j where j: "k = 2 * j" by (auto elim: evenE)
      with False have jp: "0 < j" by simp
      have "pow2i k = pow2i (k div 2) * pow2i (k div 2)"
        using False True by (simp add: pow2i.simps[of k] Let_def)
      also have "\<dots> = 2 ^ nat j * 2 ^ nat j" using "1.IH"(1)[OF False True] j by simp
      also have "\<dots> = 2 ^ (nat j + nat j)" by (simp add: power_add)
      also have "nat j + nat j = nat k" using j jp by simp
      finally show ?thesis .
    next
      case odd: False
      have "pow2i k = 2 * pow2i (k - 1)" using False odd by (simp add: pow2i.simps[of k])
      also have "\<dots> = 2 * 2 ^ nat (k - 1)" using "1.IH"(2)[OF False odd] by simp
      also have "\<dots> = 2 ^ Suc (nat (k - 1))" by simp
      also have "Suc (nat (k - 1)) = nat k" using False by simp
      finally show ?thesis .
    qed
  qed
qed

lemma pow2_powi: "pow2 k = 2 powi k"
  by (simp add: pow2_def pow2i_eq power_int_def field_simps)

lemma pow2_pos: "0 < pow2 k"
  by (simp add: pow2_powi)

lemma pow2_add: "pow2 (j + k) = pow2 j * pow2 k"
  by (simp add: pow2_powi power_int_add)

lemma pow2_mono: "j \<le> k \<Longrightarrow> pow2 j \<le> pow2 k"
  by (simp add: pow2_powi power_int_increasing)

lemma pow2_strict_mono: "j < k \<Longrightarrow> pow2 j < pow2 k"
  by (simp add: pow2_powi power_int_strict_increasing)

lemma pow2_Suc: "pow2 (k + 1) = 2 * pow2 k"
  by (simp add: pow2_powi power_int_add)

lemma pow2_nat: "0 \<le> k \<Longrightarrow> pow2 k = 2 ^ nat k"
  by (simp add: pow2_def pow2i_eq)

lemma log2i_bounds:
  "1 \<le> n \<Longrightarrow> 0 \<le> log2i n \<and> 2 ^ nat (log2i n) \<le> n \<and> n < 2 ^ nat (log2i n + 1)"
proof (induction n rule: log2i.induct)
  case (1 n)
  show ?case
  proof (cases "n < 2")
    case True
    then have "n = 1" using "1.prems" by simp
    then show ?thesis by (simp add: log2i.simps[of 1])
  next
    case False
    then have h: "1 \<le> n div 2" by simp
    define l where "l = log2i (n div 2)"
    from "1.IH"[OF False h] have l: "0 \<le> l" "2 ^ nat l \<le> n div 2" "n div 2 < 2 ^ nat (l + 1)"
      by (simp_all add: l_def)
    have e: "log2i n = 1 + l" using False by (simp add: log2i.simps[of n] l_def)
    have n1: "nat (1 + l) = Suc (nat l)" using l(1) by simp
    have n2: "nat (1 + l + 1) = Suc (Suc (nat l))" using l(1) by simp
    have n3: "nat (l + 1) = Suc (nat l)" using l(1) by simp
    have a: "(2::int) ^ Suc (nat l) \<le> n" using l(2) by simp
    have "n div 2 + 1 \<le> 2 ^ Suc (nat l)" using l(3) unfolding n3 by simp
    then have b: "n < 2 ^ Suc (Suc (nat l))" by simp
    show ?thesis unfolding e n1 n2 using l(1) a b by simp
  qed
qed

lemma floor_log2_bounds:
  assumes "0 < x"
  shows "pow2 (floor_log2 x) \<le> x" "x < pow2 (floor_log2 x + 1)"
proof -
  obtain p q where pq: "quotient_of x = (p, q)" by (cases "quotient_of x")
  have q: "0 < q" using quotient_of_denom_pos[OF pq] .
  have x: "x = of_int p / of_int q" using quotient_of_div[OF pq] .
  have p: "0 < p" using assms q x by (simp add: zero_less_divide_iff)
  define lp where "lp = log2i p"
  define lq where "lq = log2i q"
  from log2i_bounds[of p] p have bp: "0 \<le> lp" "2 ^ nat lp \<le> p" "p < 2 ^ nat (lp + 1)"
    by (simp_all add: lp_def)
  from log2i_bounds[of q] q have bq: "0 \<le> lq" "2 ^ nat lq \<le> q" "q < 2 ^ nat (lq + 1)"
    by (simp_all add: lq_def)
  have cast: "\<And>n::nat. (of_int (2 ^ n) :: rat) = 2 ^ n" by simp
  have lp1: "0 \<le> lp + 1" and lq1: "0 \<le> lq + 1" using bp(1) bq(1) by simp_all
  have rp: "pow2 lp \<le> of_int p" "of_int p < pow2 (lp + 1)"
    unfolding pow2_nat[OF bp(1)] pow2_nat[OF lp1] cast[symmetric]
    using bp(2,3) by (simp_all only: of_int_le_iff of_int_less_iff)
  have rq: "pow2 lq \<le> of_int q" "of_int q < pow2 (lq + 1)"
    unfolding pow2_nat[OF bq(1)] pow2_nat[OF lq1] cast[symmetric]
    using bq(2,3) by (simp_all only: of_int_le_iff of_int_less_iff)
  define k where "k = lp - lq"
  have qpos: "(0::rat) < of_int q" using q by simp
  have up: "x < pow2 (k + 1)"
  proof -
    have "of_int p < pow2 (k + 1) * pow2 lq"
      using rp(2) by (simp add: k_def flip: pow2_add)
    also have "\<dots> \<le> pow2 (k + 1) * of_int q"
      using rq(1) pow2_pos[of "k + 1"] by simp
    finally show ?thesis using qpos by (simp add: x pos_divide_less_eq)
  qed
  have lo: "pow2 (k - 1) < x"
  proof -
    have "pow2 (k - 1) * of_int q < pow2 (k - 1) * pow2 (lq + 1)"
      using rq(2) pow2_pos[of "k - 1"] by simp
    also have "\<dots> = pow2 lp" by (simp add: k_def flip: pow2_add)
    also have "\<dots> \<le> of_int p" by (rule rp(1))
    finally show ?thesis using qpos by (simp add: x pos_less_divide_eq)
  qed
  have e: "floor_log2 x = (if pow2 k \<le> x then k else k - 1)"
    by (simp add: floor_log2_def pq k_def lp_def lq_def Let_def)
  show "pow2 (floor_log2 x) \<le> x" using lo unfolding e by auto
  show "x < pow2 (floor_log2 x + 1)" using up unfolding e by auto
qed

lemma round_even_bounds: "\<lfloor>y\<rfloor> \<le> round_even y \<and> round_even y \<le> \<lfloor>y\<rfloor> + 1"
  by (simp add: round_even_def Let_def)

lemma round_even_ge_even:
  assumes "even M" "y < of_int M"
  shows "M \<le> round_even y \<longleftrightarrow> of_int M - 1 / 2 \<le> y"
proof -
  define f where "f = \<lfloor>y\<rfloor>"
  define r where "r = y - of_int f"
  have fl: "of_int f \<le> y" "y < of_int f + 1" unfolding f_def by linarith+
  have fM: "f \<le> M - 1" using assms(2) fl(1)
    by (metis add.commute add_le_cancel_right f_def floor_less_iff zle_diff1_eq diff_add_cancel less_imp_le zless_imp_add1_zle)
  have re: "round_even y = (if r < 1 / 2 then f else if 1 / 2 < r then f + 1
                            else if even f then f else f + 1)"
    by (simp add: round_even_def Let_def f_def r_def)
  show ?thesis
  proof
    assume a: "M \<le> round_even y"
    then have "f = M - 1" "\<not> r < 1 / 2" using fM unfolding re by (auto split: if_splits)
    then show "of_int M - 1 / 2 \<le> y" unfolding r_def by simp
  next
    assume a: "of_int M - 1 / 2 \<le> y"
    then have "of_int (M - 1) \<le> y" by simp
    then have "M - 1 \<le> f" unfolding f_def by (simp only: le_floor_iff)
    then have f: "f = M - 1" using fM by simp
    then have od: "odd f" using assms(1) by simp
    have "\<not> r < 1 / 2" using a unfolding r_def f by simp
    then show "M \<le> round_even y" unfolding re using od f by auto
  qed
qed

lemma round64_not_NaN: "round64 x \<noteq> NaN"
  by (simp add: round64_def Let_def)

lemma round64_sign: "round64 x = PInf \<Longrightarrow> 0 < x" "round64 x = NInf \<Longrightarrow> x < 0"
  by (auto simp: round64_def Let_def split: if_splits)

text \<open>A number rounds to an infinity exactly from \<open>2\<^sup>1\<^sup>0\<^sup>2\<^sup>4 - 2\<^sup>9\<^sup>7\<^sup>0\<close> on, half a unit
  in the last place above the largest double.\<close>

lemma round64_overflow:
  "(round64 x = PInf \<or> round64 x = NInf) \<longleftrightarrow> pow2 1024 - pow2 970 \<le> \<bar>x\<bar>"
proof (cases "x = 0")
  case True
  have "pow2 970 < pow2 1024" by (rule pow2_strict_mono) simp
  then show ?thesis using True by (simp add: round64_def)
next
  case False
  define a where "a = \<bar>x\<bar>"
  have a: "0 < a" using False by (simp add: a_def)
  define l where "l = floor_log2 a"
  note b = floor_log2_bounds[OF a, folded l_def]
  define e where "e = max (- 1022) l"
  define n where "n = round_even (a / pow2 (e - 52))"
  have r: "(round64 x = PInf \<or> round64 x = NInf)
             \<longleftrightarrow> (1024 \<le> e \<or> (e = 1023 \<and> 9007199254740992 \<le> n))"
    using False by (auto simp: round64_def Let_def a_def l_def e_def n_def)
  have p1024: "pow2 1024 = pow2 971 * 9007199254740992"
  proof -
    have "pow2 1024 = pow2 (971 + 53)" by simp
    also have "\<dots> = pow2 971 * pow2 53" by (rule pow2_add)
    also have "pow2 53 = 9007199254740992" by (simp add: pow2_nat)
    finally show ?thesis .
  qed
  have p971: "pow2 971 = 2 * pow2 970" using pow2_Suc[of 970] by simp
  have thr: "pow2 1024 - pow2 970 = (9007199254740992 - 1 / 2) * pow2 971"
    unfolding p1024 p971 by (simp add: algebra_simps)
  consider "1024 \<le> l" | "l = 1023" | "l < 1023" by linarith
  then show ?thesis
  proof cases
    case 1
    then have "pow2 1024 \<le> a" using b(1) pow2_mono[of 1024 l] by linarith
    moreover have "0 < pow2 970" by (rule pow2_pos)
    ultimately have "pow2 1024 - pow2 970 \<le> a" by linarith
    moreover have "1024 \<le> e" using 1 by (simp add: e_def)
    ultimately show ?thesis unfolding r a_def by simp
  next
    case 2
    then have e: "e = 1023" by (simp add: e_def)
    have q: "0 < pow2 971" by (rule pow2_pos)
    have "a < pow2 1024" using b(2) 2 by simp
    then have "a / pow2 971 < 9007199254740992"
      unfolding p1024 using q by (simp add: pos_divide_less_eq mult.commute)
    then have lt: "a / pow2 971 < of_int 9007199254740992" by simp
    have "9007199254740992 \<le> n \<longleftrightarrow> of_int 9007199254740992 - 1 / 2 \<le> a / pow2 971"
      unfolding n_def e using round_even_ge_even[OF _ lt] by simp
    also have "\<dots> \<longleftrightarrow> (9007199254740992 - 1 / 2) * pow2 971 \<le> a"
      using q by (simp add: pos_le_divide_eq)
    finally show ?thesis unfolding r thr a_def[symmetric] using e by simp
  next
    case 3
    then have e: "e < 1023" by (simp add: e_def)
    have "a < pow2 (l + 1)" by (rule b(2))
    also have "\<dots> \<le> pow2 1023" using 3 by (intro pow2_mono) simp
    finally have a1: "a < pow2 1023" .
    have "pow2 1024 = 2 * pow2 1023" using pow2_Suc[of 1023] by simp
    moreover have "pow2 970 < pow2 1023" by (rule pow2_strict_mono) simp
    ultimately have "a < pow2 1024 - pow2 970" using a1 by linarith
    then show ?thesis unfolding r a_def[symmetric] using e by simp
  qed
qed

lemma float_of_int_cases:
  "float_of_int n = (if 2 ^ 1024 - 2 ^ 970 \<le> \<bar>n\<bar> then Inl OverflowError
                     else Inr (round64 (of_int n)))"
proof -
  have c: "pow2 1024 - pow2 970 = of_int (2 ^ 1024 - 2 ^ 970)"
    by (simp add: pow2_nat)
  have "(round64 (of_int n) = PInf \<or> round64 (of_int n) = NInf)
          \<longleftrightarrow> (of_int (2 ^ 1024 - 2 ^ 970) :: rat) \<le> of_int \<bar>n\<bar>"
    unfolding round64_overflow c by simp
  then have o: "(round64 (of_int n) = PInf \<or> round64 (of_int n) = NInf)
          \<longleftrightarrow> 2 ^ 1024 - 2 ^ 970 \<le> \<bar>n\<bar>"
    by (simp only: of_int_le_iff)
  show ?thesis
    using o round64_not_NaN[of "of_int n"]
    by (cases "round64 (of_int n)") (auto simp: float_of_int_def)
qed

section \<open>The fitness formula\<close>


definition is_produce_of :: "string \<Rightarrow> Task \<Rightarrow> bool" where
  "is_produce_of c tk =
     (case task_type tk of PRODUCE mold cid cname col qty \<Rightarrow> cid = c | _ \<Rightarrow> False)"




text \<open>The minimum day of the \<open>PRODUCE\<close> tasks of a component (read only when there is
  one).\<close>

definition first_produce_day :: "Task list \<Rightarrow> string \<Rightarrow> int" where
  "first_produce_day tks c = Min (set (map day (filter (is_produce_of c) tks)))"




fun first_occ :: "string list \<Rightarrow> string list" where
  "first_occ [] = []"
| "first_occ (x # xs) = x # filter (\<lambda>y. y \<noteq> x) (first_occ xs)"

definition produced_ids :: "Task list \<Rightarrow> string list" where
  "produced_ids tks =
     first_occ (concat (map (\<lambda>tk. case task_type tk of
                                     PRODUCE mold cid cname col qty \<Rightarrow> [cid] | _ \<Rightarrow> []) tks))"

definition latest_start_of :: "ProductComponent list \<Rightarrow> string \<Rightarrow> int" where
  "latest_start_of components cid =
     (case find (\<lambda>c. c_id c = cid) components of
        Some c \<Rightarrow> max 1 (due_day c - lead_time_days c) | None \<Rightarrow> 0)"

definition days_late :: "Task list \<Rightarrow> ProductComponent list \<Rightarrow> int list" where
  "days_late tks components =
     filter (\<lambda>k. 0 < k)
       (map (\<lambda>cid. first_produce_day tks cid - latest_start_of components cid)
            (produced_ids tks))"


subsection \<open>The loop over the tasks\<close>


















subsection \<open>The late-start loop\<close>



lemma late_start_loop_unknown:
  assumes "byid (fst x) = None" and "\<forall>y\<in>set pre. byid (fst y) \<noteq> None \<and> snd y \<le> 10 ^ 9"
  shows "late_start_loop byid (pre @ x # post) pen = Inl (KeyError (fst x))"
  using assms(2)
proof (induction pre arbitrary: pen)
  case Nil
  then show ?case using assms(1) by (cases x) simp
next
  case (Cons y pre)
  obtain cid d where y: "y = (cid, d)" by (cases y)
  from Cons.prems y obtain c where c: "byid cid = Some c" and dle: "d \<le> 10 ^ 9" by auto
  define latest where "latest = max 1 (due_day c - lead_time_days c)"
  have l: "(if due_day c - lead_time_days c < 1 then 1 else due_day c - lead_time_days c)
             = latest"
    by (simp add: latest_def max_def)
  have rest: "\<forall>y\<in>set pre. byid (fst y) \<noteq> None \<and> snd y \<le> 10 ^ 9" using Cons.prems by simp
  show ?case
  proof (cases "d > latest")
    case True
    have "1 \<le> latest" by (simp add: latest_def)
    then have "\<bar>d - latest\<bar> < 10 ^ 9" using True dle by simp
    moreover have "(10::int) ^ 9 < 2 ^ 1024 - 2 ^ 970" by simp
    ultimately have f: "float_of_int (d - latest) = Inr (round64 (of_int (d - latest)))"
      unfolding float_of_int_cases by simp
    have "late_start_loop byid ((y # pre) @ x # post) pen
      = late_start_loop byid (pre @ x # post)
          (fadd pen (fmul (round64 (of_int (d - latest))) (Fin 10000)))"
      using True
      by (simp only: y append_Cons late_start_loop.simps c option.case Let_def l f sum.case if_True)
    then show ?thesis using Cons.IH[OF rest] by simp
  next
    case False
    have "late_start_loop byid ((y # pre) @ x # post) pen
            = late_start_loop byid (pre @ x # post) pen"
      using False
      by (simp only: y append_Cons late_start_loop.simps c option.case Let_def l if_False)
    then show ?thesis using Cons.IH[OF rest] by simp
  qed
qed

section \<open>The fitness is the weighted formula, in doubles\<close>












section \<open>The order the decoder scans: the claim\<close>

subsection \<open>The rank of a genome\<close>

lemma rank_of_snoc: "rank_of (g @ [x]) = (rank_of g)(x \<mapsto> int (length g))"
proof -
  have "zip (g @ [x]) (map int [0..<length (g @ [x])])
      = zip g (map int [0..<length g]) @ [(x, int (length g))]"
    by simp
  then show ?thesis unfolding rank_of_def by (simp add: fun_eq_iff)
qed

lemma rank_of_absent: "cid \<notin> set genome \<Longrightarrow> rank_of genome cid = None"
  by (induction genome rule: rev_induct) (simp_all add: rank_of_def rank_of_snoc[unfolded rank_of_def])

lemma rank_of_last:
  assumes "i < length genome" "genome ! i \<notin> set (drop (Suc i) genome)"
  shows "rank_of genome (genome ! i) = Some (int i)"
  using assms
proof (induction genome rule: rev_induct)
  case Nil
  then show ?case by simp
next
  case (snoc x g)
  show ?case
  proof (cases "i = length g")
    case True
    then show ?thesis by (simp add: rank_of_snoc)
  next
    case False
    then have i: "i < length g" using snoc.prems(1) by simp
    then have e: "(g @ [x]) ! i = g ! i" by (simp add: nth_append)
    have d: "drop (Suc i) (g @ [x]) = drop (Suc i) g @ [x]" using i by simp
    have nx: "g ! i \<noteq> x" and nd: "g ! i \<notin> set (drop (Suc i) g)"
      using snoc.prems(2) unfolding e d by auto
    show ?thesis unfolding e rank_of_snoc using snoc.IH[OF i nd] nx by simp
  qed
qed

text \<open>A legal order, position by position.\<close>

lemma topologically_legal_nth:
  "topologically_legal xs \<longleftrightarrow>
     (\<forall>i<length xs. \<forall>p\<in>set (prerequisites (xs ! i)). \<exists>j<i. c_id (xs ! j) = p)"
proof -
  have "\<And>i p. i < length xs \<Longrightarrow> p \<in> c_id ` set (take i xs) \<longleftrightarrow> (\<exists>j<i. c_id (xs ! j) = p)"
  proof -
    fix i p assume i: "i < length xs"
    have "set (take i xs) = {xs ! j | j. j < i}"
      using i by (auto simp: in_set_conv_nth) (metis less_trans nth_take)+
    then show "p \<in> c_id ` set (take i xs) \<longleftrightarrow> (\<exists>j<i. c_id (xs ! j) = p)" by auto
  qed
  then show ?thesis unfolding topologically_legal_def by auto
qed

text \<open>
  Claim C7, as amended. For components with pairwise distinct ids whose prerequisites
  are ids of components and form no cycle, and for every genome: the topological sort
  returns a list of the components, each once, in which every component comes after
  each of its prerequisites. The list the decoder scans is that list sorted stably by
  genome rank: a permutation of it, ascending in rank, in which the components of one
  rank keep their topological order. The rank of a component is the last position of
  its id in the genome, and \<open>10\<^sup>9\<close> when the genome has not its id. (The scanned list is
  not legal in general: see the counterexample.)
\<close>

theorem scanned_order_is_stable_sort_by_genome_rank:
  assumes "distinct (map c_id cs)"
    and "\<forall>c\<in>set cs. \<forall>p\<in>set (prerequisites c). p \<in> c_id ` set cs"
    and "acyclic {(p, c_id c) | p c. c \<in> set cs \<and> p \<in> set (prerequisites c)}"
  shows "\<exists>topo scanned rk.
           topological_order cs = Some (Inr topo)
         \<and> mset topo = mset cs
         \<and> (\<forall>i<length topo. \<forall>p\<in>set (prerequisites (topo ! i)). \<exists>j<i. c_id (topo ! j) = p)
         \<and> scanned = comp_order_of genome topo
         \<and> (\<forall>cid. cid \<notin> set genome \<longrightarrow> rk cid = 10 ^ 9)
         \<and> (\<forall>i<length genome. genome ! i \<notin> set (drop (Suc i) genome) \<longrightarrow> rk (genome ! i) = int i)
         \<and> mset scanned = mset topo
         \<and> sorted (map (\<lambda>c. rk (c_id c)) scanned)
         \<and> (\<forall>k. filter (\<lambda>c. rk (c_id c) = k) scanned = filter (\<lambda>c. rk (c_id c) = k) topo)"
proof -
  have "\<not> invalid_components cs"
    using assms
    unfolding invalid_components_def unknown_prerequisite_def duplicate_ids_def
      cyclic_prerequisites_def set_prereq_edges
    by blast
  moreover from topological_order_spec[of cs] obtain r where
    r: "topological_order cs = Some r"
       "case r of Inl e \<Rightarrow> (\<exists>msg. e = ValueError msg) \<and> invalid_components cs
          | Inr out \<Rightarrow> \<not> invalid_components cs \<and> set out = set cs
                     \<and> length out = length cs \<and> distinct (map c_id out)
                     \<and> topologically_legal out"
    by blast
  ultimately obtain topo where t: "topological_order cs = Some (Inr topo)"
    by (cases r) auto
  note f = topological_order_Inr[OF t]
  have dt: "distinct topo" using f(4) by (simp add: distinct_map)
  have dc: "distinct cs" using assms(1) by (simp add: distinct_map)
  have m: "mset topo = mset cs"
    using dt dc f(2) by (simp add: set_eq_iff_mset_eq_distinct)
  define rk where "rk = rank_get (rank_of genome)"
  have r1: "\<forall>cid. cid \<notin> set genome \<longrightarrow> rk cid = 10 ^ 9"
    by (simp add: rk_def rank_get_def rank_of_absent UNRANKED_def)
  have r2: "\<forall>i<length genome. genome ! i \<notin> set (drop (Suc i) genome) \<longrightarrow> rk (genome ! i) = int i"
    by (simp add: rk_def rank_get_def rank_of_last)
  have s: "comp_order_of genome topo = sort_key (\<lambda>c. rk (c_id c)) topo"
    by (simp add: comp_order_of_def rk_def)
  have l: "\<forall>i<length topo. \<forall>p\<in>set (prerequisites (topo ! i)). \<exists>j<i. c_id (topo ! j) = p"
    using f(5) unfolding topologically_legal_nth .
  have "mset (comp_order_of genome topo) = mset topo"
    "sorted (map (\<lambda>c. rk (c_id c)) (comp_order_of genome topo))"
    "\<forall>k. filter (\<lambda>c. rk (c_id c) = k) (comp_order_of genome topo)
           = filter (\<lambda>c. rk (c_id c) = k) topo"
    unfolding s by (simp_all add: sort_key_stable)
  with t m l r1 r2 show ?thesis by blast
qed

lemma ex_AB_valid:
  "distinct (map c_id [ex_A, ex_B])"
  "\<forall>c\<in>set [ex_A, ex_B]. \<forall>p\<in>set (prerequisites c). p \<in> c_id ` set [ex_A, ex_B]"
  "acyclic {(p, c_id c) | p c. c \<in> set [ex_A, ex_B] \<and> p \<in> set (prerequisites c)}"
proof -
  from topological_order_Inr(1)[OF ex_AB_topological_order]
  have v: "\<not> invalid_components [ex_A, ex_B]" .
  show "distinct (map c_id [ex_A, ex_B])"
    using v by (simp add: invalid_components_def duplicate_ids_def)
  show "\<forall>c\<in>set [ex_A, ex_B]. \<forall>p\<in>set (prerequisites c). p \<in> c_id ` set [ex_A, ex_B]"
    using v unfolding invalid_components_def unknown_prerequisite_def by blast
  show "acyclic {(p, c_id c) | p c. c \<in> set [ex_A, ex_B] \<and> p \<in> set (prerequisites c)}"
    using v unfolding invalid_components_def cyclic_prerequisites_def set_prereq_edges by blast
qed

theorem scanned_order_is_stable_sort_by_genome_rank_witness:
  "\<exists>topo scanned rk.
           topological_order [ex_A, ex_B] = Some (Inr topo)
         \<and> mset topo = mset [ex_A, ex_B]
         \<and> (\<forall>i<length topo. \<forall>p\<in>set (prerequisites (topo ! i)). \<exists>j<i. c_id (topo ! j) = p)
         \<and> scanned = comp_order_of [''B'', ''A''] topo
         \<and> (\<forall>cid. cid \<notin> set [''B'', ''A''] \<longrightarrow> rk cid = 10 ^ 9)
         \<and> (\<forall>i<length [''B'', ''A''].
               [''B'', ''A''] ! i \<notin> set (drop (Suc i) [''B'', ''A'']) \<longrightarrow> rk ([''B'', ''A''] ! i) = int i)
         \<and> mset scanned = mset topo
         \<and> sorted (map (\<lambda>c. rk (c_id c)) scanned)
         \<and> (\<forall>k. filter (\<lambda>c. rk (c_id c) = k) scanned = filter (\<lambda>c. rk (c_id c) = k) topo)"
  by (rule scanned_order_is_stable_sort_by_genome_rank[OF ex_AB_valid])

text \<open>Claim C7 as stated fails: the components \<open>A\<close> and \<open>B\<close>, where \<open>B\<close> requires
  \<open>A\<close>, have distinct ids and known, acyclic prerequisites (the topological sort
  returns \<open>A, B\<close>), yet with the genome \<open>B, A\<close> the scanned list is \<open>B, A\<close>: \<open>B\<close>
  comes before its prerequisite.\<close>

theorem scanned_order_counterexample:
  "topological_order [ex_A, ex_B] = Some (Inr [ex_A, ex_B])
   \<and> comp_order_of [''B'', ''A''] [ex_A, ex_B] = [ex_B, ex_A]
   \<and> prerequisites ex_B = [''A''] \<and> c_id ex_A = ''A''
   \<and> \<not> topologically_legal (comp_order_of [''B'', ''A''] [ex_A, ex_B])"
proof -
  have 1: "prerequisites ex_B = [''A'']" "c_id ex_A = ''A''"
    by (simp_all add: ex_A_def ex_B_def)
  have 2: "\<not> topologically_legal (comp_order_of [''B'', ''A''] [ex_A, ex_B])"
    unfolding ex_AB_comp_order by (rule ex_BA_not_legal)
  show ?thesis using ex_AB_topological_order ex_AB_comp_order 1 2 by blast
qed

subsection \<open>The elite of a generation\<close>

text \<open>The order crossover, in the words of the specification: between two cut points
  the child has the genes of the first parent, and around them the genes of the second
  parent that are not between the cuts, in the order of the second parent. Lists shorter
  than two are copied.\<close>

definition ox_child :: "string list \<Rightarrow> string list \<Rightarrow> string list \<Rightarrow> bool" where
  "ox_child parent1 parent2 child =
     (if length parent1 < 2 then child = parent1
      else \<exists>a b. a < b \<and> b < length parent1
             \<and> child = take a (filter (\<lambda>x. x \<notin> set (take (b - a) (drop a parent1))) parent2)
                       @ take (b - a) (drop a parent1)
                       @ drop a (filter (\<lambda>x. x \<notin> set (take (b - a) (drop a parent1))) parent2))"

text \<open>A swap of two different positions.\<close>

definition swap_of :: "string list \<Rightarrow> string list \<Rightarrow> bool" where
  "swap_of g h = (\<exists>i j. i < length g \<and> j < length g \<and> i \<noteq> j \<and> h = g[i := g ! j, j := g ! i])"

text \<open>The child at position \<open>j\<close>: parents are paired (0, 1), (2, 3), ...; each pair
  gives two children, the second with the parents exchanged; the last parent of a pool
  of odd size is copied.\<close>

definition bred_from :: "string list list \<Rightarrow> nat \<Rightarrow> nat \<Rightarrow> string list \<Rightarrow> bool" where
  "bred_from pool pop_size j child =
     (if even j then (if j + 1 < pop_size then ox_child (pool ! j) (pool ! (j + 1)) child
                      else child = pool ! j)
      else ox_child (pool ! j) (pool ! (j - 1)) child)"

text \<open>The winner of the tournament between the entries \<open>a\<close> and \<open>b\<close> of the scored
  population: the first when its score is strictly higher, else the second.\<close>

definition winner :: "(fl \<times> string list) list \<Rightarrow> nat \<Rightarrow> nat \<Rightarrow> string list" where
  "winner scored a b =
     (if fl_less (fst (scored ! b)) (fst (scored ! a)) then snd (scored ! a) else snd (scored ! b))"

lemma crossover_ox_child: "ox_child p1 p2 (fst (crossover_ox p1 p2 r))"
proof (cases "length p1 < 2")
  case True
  then show ?thesis by (simp add: ox_child_def crossover_ox_def)
next
  case False
  then have n: "2 \<le> length p1" by simp
  define i where "i = fst (fst (sample2 (length p1) r))"
  define j where "j = snd (fst (sample2 (length p1) r))"
  note sb = sample2_bounds[OF n, of r, folded i_def j_def]
  have a: "min i j < max i j" "max i j < length p1" using sb by auto
  have "fst (crossover_ox p1 p2 r)
      = take (min i j) (filter (\<lambda>x. x \<notin> set (take (max i j - min i j) (drop (min i j) p1))) p2)
          @ take (max i j - min i j) (drop (min i j) p1)
          @ drop (min i j) (filter (\<lambda>x. x \<notin> set (take (max i j - min i j) (drop (min i j) p1))) p2)"
    using False by (simp add: crossover_ox_def Let_def i_def j_def)
  then show ?thesis using False a unfolding ox_child_def by (simp only: if_False) blast
qed

lemma mutate_swap_cases:
  "fst (mutate_swap g r) = g \<or> swap_of g (fst (mutate_swap g r))"
proof (cases "length g < 2")
  case True
  then show ?thesis by (simp add: mutate_swap_def)
next
  case False
  then have n: "2 \<le> length g" by simp
  note sb = sample2_bounds[OF n, of r]
  have "swap_of g (fst (mutate_swap g r))"
    using False sb unfolding swap_of_def mutate_swap_def Let_def
    by (simp only: if_False fst_conv) blast
  then show ?thesis ..
qed

lemma random_unit_nonneg: "0 \<le> fst (random_unit r)"
  by (cases r) (simp_all add: random_unit_def)

lemma mutate_all_children:
  "length (fst (mutate_all rate cs r)) = length cs
   \<and> (\<forall>k<length cs. fst (mutate_all rate cs r) ! k = cs ! k
                      \<or> swap_of (cs ! k) (fst (mutate_all rate cs r) ! k))
   \<and> (rate \<le> 0 \<longrightarrow> fst (mutate_all rate cs r) = cs)"
proof (induction cs arbitrary: r)
  case Nil
  then show ?case by simp
next
  case (Cons c cs)
  define ur where "ur = random_unit r"
  define cr where "cr = (if fst ur < rate then mutate_swap c (snd ur) else (c, snd ur))"
  define rest where "rest = mutate_all rate cs (snd cr)"
  note ih = Cons.IH[of "snd cr", folded rest_def]
  have e: "fst (mutate_all rate (c # cs) r) = fst cr # fst rest"
    by (simp add: Let_def ur_def cr_def rest_def)
  have h: "fst cr = c \<or> swap_of c (fst cr)"
    using mutate_swap_cases[of c "snd ur"] by (simp add: cr_def)
  have z: "rate \<le> 0 \<Longrightarrow> fst cr = c"
    using random_unit_nonneg[of r] by (simp add: cr_def ur_def)
  show ?case unfolding e using ih h z
    by (auto simp: nth_Cons split: nat.splits)
qed

lemma breed_children:
  assumes "length pool = pop_size" "even i"
  shows "length (fst (breed i pop_size pool r)) = pop_size - i
         \<and> (\<forall>k<pop_size - i. bred_from pool pop_size (i + k) (fst (breed i pop_size pool r) ! k))"
  using assms
proof (induction i pop_size pool r rule: breed.induct)
  case (1 i pop_size pool r)
  show ?case
  proof (cases "i < pop_size")
    case False
    then show ?thesis by (simp add: breed.simps[of i pop_size pool r])
  next
    case True
    show ?thesis
    proof (cases "i + 1 \<ge> pop_size")
      case last: True
      then have "pop_size - i = 1" using True by simp
      then show ?thesis using True last "1.prems"(2)
        by (simp add: breed.simps[of i pop_size pool r] bred_from_def)
    next
      case more: False
      define c1 where "c1 = crossover_ox (pool ! i) (pool ! (i + 1)) r"
      define c2 where "c2 = crossover_ox (pool ! (i + 1)) (pool ! i) (snd c1)"
      define rest where "rest = breed (i + 2) pop_size pool (snd c2)"
      have ev: "even (i + 2)" using "1.prems"(2) by simp
      have ih: "length (fst rest) = pop_size - (i + 2)"
        "\<forall>k<pop_size - (i + 2). bred_from pool pop_size (i + 2 + k) (fst rest ! k)"
        using "1.IH"[OF True more refl refl "1.prems"(1) ev]
        unfolding rest_def c2_def c1_def by blast+
      have e: "fst (breed i pop_size pool r) = fst c1 # fst c2 # fst rest"
        using True more
        by (simp add: breed.simps[of i pop_size pool r] Let_def rest_def c2_def c1_def)
      have b0: "bred_from pool pop_size i (fst c1)"
        using "1.prems"(2) more crossover_ox_child[of "pool ! i" "pool ! (i + 1)" r]
        by (simp add: bred_from_def c1_def)
      have b1: "bred_from pool pop_size (i + 1) (fst c2)"
        using "1.prems"(2) crossover_ox_child[of "pool ! (i + 1)" "pool ! i" "snd c1"]
        by (simp add: bred_from_def c2_def)
      have "\<forall>k<pop_size - i. bred_from pool pop_size (i + k) ((fst c1 # fst c2 # fst rest) ! k)"
      proof (intro allI impI)
        fix k assume k: "k < pop_size - i"
        consider "k = 0" | "k = 1" | "2 \<le> k" by linarith
        then show "bred_from pool pop_size (i + k) ((fst c1 # fst c2 # fst rest) ! k)"
        proof cases
          case 1
          then show ?thesis using b0 by simp
        next
          case 2
          then show ?thesis using b1 by simp
        next
          case 3
          then obtain m where m: "k = Suc (Suc m)" by (metis add_2_eq_Suc le_Suc_ex)
          then have "m < pop_size - (i + 2)" using k by simp
          then have "bred_from pool pop_size (i + 2 + m) (fst rest ! m)" using ih(2) by blast
          then show ?thesis by (simp add: m)
        qed
      qed
      then show ?thesis unfolding e using ih(1) more by simp
    qed
  qed
qed

lemma tournament_fill_winners:
  assumes "2 \<le> pop_size" "length scored = pop_size"
  shows "\<forall>i. length new_pop \<le> i \<and> i < length (fst (tournament_fill pop_size scored new_pop r))
           \<longrightarrow> (\<exists>a b. a < pop_size \<and> b < pop_size \<and> a \<noteq> b
                  \<and> fst (tournament_fill pop_size scored new_pop r) ! i = winner scored a b)"
  using assms
proof (induction pop_size scored new_pop r rule: tournament_fill.induct)
  case (1 pop_size scored new_pop r)
  show ?case
  proof (cases "length new_pop < pop_size")
    case False
    then show ?thesis by (simp add: tournament_fill.simps[of pop_size scored new_pop r])
  next
    case True
    define a where "a = fst (fst (sample2 pop_size r))"
    define b where "b = snd (fst (sample2 pop_size r))"
    define parent where "parent = (if fl_less (fst (scored ! b)) (fst (scored ! a))
                       then snd (scored ! a) else snd (scored ! b))"
    note sb = sample2_bounds[OF "1.prems"(1), of r, folded a_def b_def]
    define res where "res = fst (tournament_fill pop_size scored (new_pop @ [parent])
                                    (snd (sample2 pop_size r)))"
    have e: "fst (tournament_fill pop_size scored new_pop r) = res"
      using True
      by (simp add: tournament_fill.simps[of pop_size scored new_pop r] Let_def a_def b_def
          parent_def res_def)
    have ih: "\<forall>i. length (new_pop @ [parent]) \<le> i \<and> i < length res
           \<longrightarrow> (\<exists>a b. a < pop_size \<and> b < pop_size \<and> a \<noteq> b \<and> res ! i = winner scored a b)"
      using "1.IH"[OF True refl a_def b_def parent_def "1.prems"] unfolding res_def .
    have tk: "take (length (new_pop @ [parent])) res = new_pop @ [parent]"
      using tournament_fill_inv[OF "1.prems", of "new_pop @ [parent]" "snd (sample2 pop_size r)"]
      unfolding res_def by blast
    have lr: "length (new_pop @ [parent]) \<le> length res"
      using tournament_fill_inv[OF "1.prems", of "new_pop @ [parent]" "snd (sample2 pop_size r)"]
      unfolding res_def by simp
    have at: "res ! length new_pop = parent"
    proof -
      have "res ! length new_pop = take (length (new_pop @ [parent])) res ! length new_pop"
        by simp
      also have "\<dots> = parent" unfolding tk by simp
      finally show ?thesis .
    qed
    show ?thesis unfolding e
    proof (intro allI impI)
      fix i assume i: "length new_pop \<le> i \<and> i < length res"
      show "\<exists>a b. a < pop_size \<and> b < pop_size \<and> a \<noteq> b \<and> res ! i = winner scored a b"
      proof (cases "i = length new_pop")
        case True
        then have "res ! i = winner scored a b" using at by (simp add: winner_def parent_def)
        then show ?thesis using sb by blast
      next
        case False
        then have "length (new_pop @ [parent]) \<le> i \<and> i < length res" using i by simp
        then show ?thesis using ih by blast
      qed
    qed
  qed
qed

lemma score_population_scores:
  "score_population dec cs pop = Some (Inr scored) \<Longrightarrow>
     map snd scored = pop
     \<and> (\<forall>i<length pop. \<exists>res. dec (pop ! i) = Some (Inr res)
            \<and> fitness_v2 (fst res) (snd res) cs = Inr (fst (scored ! i)))"
proof (induction pop arbitrary: scored)
  case Nil
  then show ?case by simp
next
  case (Cons g gs)
  from Cons.prems obtain res where d: "dec g = Some (Inr res)"
    by (auto simp: bind_r_def split: option.splits sum.splits)
  from Cons.prems d obtain score where f: "fitness_v2 (fst res) (snd res) cs = Inr score"
    by (auto simp: bind_r_def split: option.splits sum.splits)
  from Cons.prems d f obtain rest where r: "score_population dec cs gs = Some (Inr rest)"
    and s: "scored = (score, g) # rest"
    by (auto simp: bind_r_def split: option.splits sum.splits)
  note ih = Cons.IH[OF r]
  have m: "map snd scored = g # gs" using ih s by simp
  have "\<forall>i<length (g # gs). \<exists>res. dec ((g # gs) ! i) = Some (Inr res)
            \<and> fitness_v2 (fst res) (snd res) cs = Inr (fst (scored ! i))"
  proof (intro allI impI)
    fix i assume i: "i < length (g # gs)"
    show "\<exists>res. dec ((g # gs) ! i) = Some (Inr res)
            \<and> fitness_v2 (fst res) (snd res) cs = Inr (fst (scored ! i))"
    proof (cases i)
      case 0
      then show ?thesis using d f s by auto
    next
      case (Suc k)
      then have "k < length gs" using i by simp
      then show ?thesis using ih Suc s by simp
    qed
  qed
  then show ?case using m by blast
qed

lemma desc_key_inj: "desc_key x = desc_key y \<longleftrightarrow> x = y"
  by (cases x; cases y) simp_all

lemma desc_key_less: "fl_less x y \<Longrightarrow> desc_key y < desc_key x"
  by (cases x; cases y) simp_all

end
